theory Spec2Isabelle
  imports Complex_Main "HOL-Library.Monad_Syntax" "HOL-Library.Sublist"
begin

section \<open>A multipart HTTP downloader (main.go)\<close>

text \<open>
  The program probes a URL with a HEAD request, downloads the resource either in one
  stream or in byte ranges fetched by concurrent workers, keeps every part in an
  in-memory buffer, and writes the buffers in index order to a file.

  The embedding follows \<^verbatim>\<open>main.go\<close> function by function. What the program does
  beyond returning values is explicit:
  \<^item> the HTTP client, the working directory and the file system are an environment
    (\<open>env\<close>) and a state (\<open>state\<close>);
  \<^item> Go's multiple results \<open>(value, error)\<close> are tuples whose last component is an
    \<open>error option\<close>, \<open>None\<close> being \<open>nil\<close>;
  \<^item> a run-time panic (nil dereference, index out of range) and a goroutine that never
    comes back (a \<open>WaitGroup\<close> that is never released, a loop that never ends) are
    outcomes of their own (\<open>Panic\<close>, \<open>Hang\<close>);
  \<^item> Go's \<open>int\<close> is the 64-bit two's complement integer of the usual targets: sums
    wrap around (\<open>wrap64\<close>);
  \<^item> standard output, the requests sent and the goroutines started are recorded in a
    trace of events.
\<close>

subsection \<open>Integers, decimal text\<close>

type_synonym bytes = string

definition wrap64 :: "int \<Rightarrow> int" where
  "wrap64 x = (x + 2 ^ 63) mod 2 ^ 64 - 2 ^ 63"

definition maxInt :: int where
  "maxInt = 2 ^ 63 - 1"

definition minInt :: int where
  "minInt = - (2 ^ 63)"

text \<open>Go's integer quotient truncates towards zero; the caller checks the divisor.\<close>

definition go_quo :: "int \<Rightarrow> int \<Rightarrow> int" where
  "go_quo a b = wrap64 (sgn a * sgn b * (\<bar>a\<bar> div \<bar>b\<bar>))"

definition digit_char :: "nat \<Rightarrow> char" where
  "digit_char d = ''0123456789'' ! d"

fun digits :: "nat \<Rightarrow> string" where
  "digits n = (if n < 10 then [digit_char n] else digits (n div 10) @ [digit_char (n mod 10)])"

declare digits.simps [simp del]

text \<open>The verb \<^verbatim>\<open>%d\<close> of \<^verbatim>\<open>fmt\<close>.\<close>

definition itoa :: "int \<Rightarrow> string" where
  "itoa i = (if i < 0 then CHR ''-'' # digits (nat (- i)) else digits (nat i))"

subsection \<open>Errors\<close>

datatype error =
    TransportError string
  | BodyReadError string
  | UrlParseError
  | ErrSyntax
  | ErrRange
  | OsError string
  | ErrNoSpace
  | ErrShortWrite

subsection \<open>strconv.Atoi\<close>

text \<open>
  \<^verbatim>\<open>strconv.Atoi\<close> reads an optional sign and then decimal digits, at least one; anything
  else is a syntax error, and a value outside \<open>int\<close> a range error.
\<close>

definition is_digit :: "char \<Rightarrow> bool" where
  "is_digit c = ((48 :: nat) \<le> of_char c \<and> of_char c \<le> (57 :: nat))"

definition digits_value :: "string \<Rightarrow> int" where
  "digits_value ds = foldl (\<lambda>acc c. acc * 10 + (int (of_char c) - 48)) 0 ds"

definition Atoi :: "string \<Rightarrow> int \<times> error option" where
  "Atoi s =
     (let neg = (s \<noteq> [] \<and> hd s = CHR ''-'');
          ds = (if s \<noteq> [] \<and> (hd s = CHR ''-'' \<or> hd s = CHR ''+'') then tl s else s)
      in if ds = [] \<or> \<not> list_all is_digit ds then (0, Some ErrSyntax)
         else let n = digits_value ds
              in if neg then (if n > 2 ^ 63 then (minInt, Some ErrRange) else (- n, None))
                 else (if n > maxInt then (maxInt, Some ErrRange) else (n, None)))"

subsection \<open>path.Join and filepath.Base\<close>

text \<open>
  The two library functions that name the output file, on a system whose separator
  is the slash. \<^verbatim>\<open>filepath.Base\<close> drops trailing slashes and keeps what follows the
  last slash left; \<^verbatim>\<open>path.Join\<close> puts slashes between its non-empty arguments and
  cleans the result: empty and \<open>.\<close> elements go, \<open>..\<close> removes the element before it.
\<close>

definition filepath_Base :: "string \<Rightarrow> string" where
  "filepath_Base p =
     (if p = [] then ''.''
      else let q = rev (dropWhile (\<lambda>c. c = CHR ''/'') (rev p));
               r = rev (takeWhile (\<lambda>c. c \<noteq> CHR ''/'') (rev q))
           in if r = [] then ''/'' else r)"

fun split_slash :: "string \<Rightarrow> string list" where
  "split_slash [] = [[]]"
| "split_slash (c # cs) =
     (if c = CHR ''/'' then [] # split_slash cs
      else (case split_slash cs of [] \<Rightarrow> [[c]] | x # xs \<Rightarrow> (c # x) # xs))"

fun join_slash :: "string list \<Rightarrow> string" where
  "join_slash [] = []"
| "join_slash [x] = x"
| "join_slash (x # y # ys) = x @ CHR ''/'' # join_slash (y # ys)"

text \<open>\<open>out\<close> is the cleaned path so far, last element first.\<close>

fun clean_elems :: "bool \<Rightarrow> string list \<Rightarrow> string list \<Rightarrow> string list" where
  "clean_elems rooted out [] = rev out"
| "clean_elems rooted out (c # cs) =
     (if c = [] \<or> c = ''.'' then clean_elems rooted out cs
      else if c = ''..'' then
        (if out \<noteq> [] \<and> hd out \<noteq> ''..'' then clean_elems rooted (tl out) cs
         else if \<not> rooted then clean_elems rooted (''..'' # out) cs
         else clean_elems rooted out cs)
      else clean_elems rooted (c # out) cs)"

definition path_Clean :: "string \<Rightarrow> string" where
  "path_Clean p =
     (if p = [] then ''.''
      else let rooted = (hd p = CHR ''/'');
               s = (if rooted then ''/'' else []) @ join_slash (clean_elems rooted [] (split_slash p))
           in if s = [] then ''.'' else s)"

definition path_Join :: "string list \<Rightarrow> string" where
  "path_Join elem =
     (let es = filter (\<lambda>e. e \<noteq> []) elem
      in if es = [] then [] else path_Clean (join_slash es))"

subsection \<open>The environment, the state, outcomes\<close>

text \<open>
  An HTTP response as the program reads it: the status code, the headers, and the body,
  which delivers \<open>Body\<close> and then ends, or fails with \<open>BodyErr\<close>.
\<close>

record response =
  StatusCode :: int
  Header :: "string \<rightharpoonup> string"
  Body :: bytes
  BodyErr :: "error option"

definition Header_Get :: "response \<Rightarrow> string \<Rightarrow> string" where
  "Header_Get r k = (case Header r k of None \<Rightarrow> [] | Some v \<Rightarrow> v)"

text \<open>
  What the program does not decide: the answers of the HTTP client (a response pointer,
  \<open>None\<close> for \<open>nil\<close>, and an error), whether \<^verbatim>\<open>http.NewRequest\<close> accepts the URL, the
  working directory, and whether a file can be created.
\<close>

record env =
  client_Head :: "string \<Rightarrow> response option \<times> error option"
  client_Do :: "string \<Rightarrow> string option \<Rightarrow> response option \<times> error option"
  NewRequest_err :: "string \<Rightarrow> error option"
  os_Getwd :: "string \<times> error option"
  os_Create_err :: "string \<Rightarrow> error option"

text \<open>
  What a run does that can be seen from outside, in order: the lines it prints (the
  fixed texts, and one constructor for each formatted line), the requests it sends, the
  goroutines it starts, and the cancelling of the context of \<^verbatim>\<open>progress\<close>.
\<close>

datatype event =
    Println string
  | PrintDownloading string
  | PrintRangeStarted string
  | PrintError error
  | PrintWritten int
  | PrintCopied int "error option"
  | HEAD string
  | GET string "string option"
  | GoWorker string int
  | GoProgress int
  | CancelProgress

text \<open>
  The struct \<^verbatim>\<open>downloader\<close>. The client is in the environment; the progress channel
  carries no data of its own and is described with \<open>progress\<close> below.
\<close>

record downloader =
  workersCount :: int
  chunks :: "bytes list"
  progressEnabled :: bool
  progressCalcInterval :: int

text \<open>
  The state a run works on: the downloader, the files written, the bytes the disk still
  takes before a write fails, and the trace.
\<close>

record state =
  dl :: downloader
  files :: "string \<rightharpoonup> bytes"
  disk_free :: nat
  trace :: "event list"

datatype goroutine = Caller | Worker int

datatype 'a outcome =
    Return 'a
  | Panic goroutine string
  | Hang

definition emit :: "event \<Rightarrow> state \<Rightarrow> state" where
  "emit e s = s\<lparr>trace := trace s @ [e]\<rparr>"

definition set_chunk :: "nat \<Rightarrow> bytes \<Rightarrow> state \<Rightarrow> state" where
  "set_chunk i b s = s\<lparr>dl := (dl s)\<lparr>chunks := (chunks (dl s))[i := b]\<rparr>\<rparr>"

definition NewDownloader :: "int \<Rightarrow> downloader outcome" where
  "NewDownloader n =
     (if n < 0 then Panic Caller ''makeslice: len out of range''
      else Return \<lparr>workersCount = n, chunks = replicate (nat n) [],
                    progressEnabled = False, progressCalcInterval = 0\<rparr>)"

definition WithProgress :: "bool \<Rightarrow> int \<Rightarrow> downloader \<Rightarrow> downloader" where
  "WithProgress isEnabled interval d = d\<lparr>progressEnabled := isEnabled, progressCalcInterval := interval\<rparr>"

subsection \<open>getRangeDetails\<close>

text \<open>
  One HEAD request. The function returns \<open>(false, 0, err)\<close> on an error of the client,
  on a status other than 200 and 206, and when \<^verbatim>\<open>Content-Length\<close> is not a number; in
  the second case \<open>err\<close> is the variable the client's call assigned.
\<close>

definition getRangeDetails :: "env \<Rightarrow> string \<Rightarrow> state \<Rightarrow> (bool \<times> int \<times> error option) outcome \<times> state" where
  "getRangeDetails e url s =
     (let s1 = emit (HEAD url) s;
          (response, err) = client_Head e url
      in if err \<noteq> None then (Return (False, 0, err), s1)
         else (case response of
             None \<Rightarrow> (Panic Caller ''nil pointer dereference'', s1)
           | Some r \<Rightarrow>
               if StatusCode r \<noteq> 200 \<and> StatusCode r \<noteq> 206 then (Return (False, 0, err), s1)
               else (let (contentLength, err) = Atoi (Header_Get r ''Content-Length'')
                     in if err \<noteq> None then (Return (False, 0, err), s1)
                        else if Header_Get r ''Accept-Ranges'' = ''bytes''
                          then (Return (True, contentLength, None), s1)
                          else (Return (False, contentLength, None), s1))))"

subsection \<open>combineChunks\<close>

text \<open>
  \<^verbatim>\<open>os.File.Write\<close>: the file takes the bytes the disk has room for, and reports an
  error when that is not all of them.
\<close>

definition file_Write :: "string \<Rightarrow> bytes \<Rightarrow> state \<Rightarrow> (nat \<times> error option) \<times> state" where
  "file_Write p b s =
     (let n = min (length b) (disk_free s);
          old = (case files s p of None \<Rightarrow> [] | Some c \<Rightarrow> c)
      in ((n, if n < length b then Some ErrNoSpace else None),
          s\<lparr>files := (files s)(p \<mapsto> old @ take n b), disk_free := disk_free s - n\<rparr>))"

text \<open>
  \<^verbatim>\<open>bytes.Buffer.WriteTo\<close> on chunk \<open>i\<close>: the unread bytes go to the writer, what was
  written is consumed, and a buffer written in full is reset.
\<close>

definition Buffer_WriteTo :: "nat \<Rightarrow> string \<Rightarrow> state \<Rightarrow> (nat \<times> error option) \<times> state" where
  "Buffer_WriteTo i p s =
     (let b = chunks (dl s) ! i
      in if length b > 0 then
           (let ((m, e), s1) = file_Write p b s;
                s2 = set_chunk i (drop m b) s1
            in if e \<noteq> None then ((m, e), s2)
               else if m \<noteq> length b then ((m, Some ErrShortWrite), s2)
               else ((m, None), set_chunk i [] s2))
         else ((0, None), set_chunk i [] s))"

lemma length_chunks_set_chunk:
  "length (chunks (dl (set_chunk i b s))) = length (chunks (dl s))"
  by (simp add: set_chunk_def)

lemma length_chunks_file_Write:
  "file_Write p b s = (r, s') \<Longrightarrow> length (chunks (dl s')) = length (chunks (dl s))"
  by (auto simp: file_Write_def Let_def)

lemma length_chunks_Buffer_WriteTo:
  "length (chunks (dl (snd (Buffer_WriteTo i p s)))) = length (chunks (dl s))"
  by (auto simp: Buffer_WriteTo_def Let_def length_chunks_set_chunk
      split: prod.splits dest: length_chunks_file_Write)

text \<open>The loop \<^verbatim>\<open>for i := 0; i < len(d.chunks); i++\<close>, from index \<open>i\<close> on.\<close>

function combine_loop :: "nat \<Rightarrow> string \<Rightarrow> state \<Rightarrow> error option \<times> state" where
  "combine_loop i p s =
     (if i < length (chunks (dl s)) then
        (let r = Buffer_WriteTo i p s; err = snd (fst r); s1 = snd r
         in if err \<noteq> None then (err, s1) else combine_loop (i + 1) p s1)
      else (None, s))"
  by pat_completeness auto
termination
  by (relation "measure (\<lambda>(i, p, s). length (chunks (dl s)) - i)")
    (auto simp: length_chunks_Buffer_WriteTo)

declare combine_loop.simps [simp del]

definition os_Create :: "env \<Rightarrow> string \<Rightarrow> state \<Rightarrow> error option \<times> state" where
  "os_Create e p s =
     (case os_Create_err e p of
        Some x \<Rightarrow> (Some x, s)
      | None \<Rightarrow> (None, s\<lparr>files := (files s)(p \<mapsto> [])\<rparr>))"

definition combineChunks :: "env \<Rightarrow> string \<Rightarrow> state \<Rightarrow> (string \<times> error option) \<times> state" where
  "combineChunks e url s =
     (let (currentDir, err) = os_Getwd e
      in if err \<noteq> None then (([], err), s)
         else (let filePath = path_Join [currentDir, ''/'', filepath_Base url];
                   (err, s1) = os_Create e filePath s
               in if err \<noteq> None then (([], err), s1)
                  else (let (err, s2) = combine_loop 0 filePath s1
                        in if err \<noteq> None then (([], err), s2)
                           else ((filePath, None), s2))))"

subsection \<open>downloadFileForRange and processSingle\<close>

text \<open>
  A worker. After an error of \<^verbatim>\<open>client.Do\<close> the function prints it and goes on to
  \<^verbatim>\<open>defer response.Body.Close()\<close>, which reads through the response pointer.
  \<^verbatim>\<open>io.Copy\<close> appends the body to the fresh buffer \<open>chunks[index]\<close> and returns the
  number of bytes and the reader's error; both are printed.
\<close>

definition downloadFileForRange :: "env \<Rightarrow> string \<Rightarrow> string \<Rightarrow> int \<Rightarrow> state \<Rightarrow> unit outcome \<times> state" where
  "downloadFileForRange e url range' index s =
     (let s1 = emit (PrintRangeStarted range') s;
          err = NewRequest_err e url
      in if err \<noteq> None then (Return (), s1)
         else (let s2 = emit (GET url (Some (''bytes='' @ range'))) s1;
                   (response, err) = client_Do e url (Some (''bytes='' @ range'));
                   s3 = (case err of Some x \<Rightarrow> emit (PrintError x) s2 | None \<Rightarrow> s2)
               in (case response of
                     None \<Rightarrow> (Panic (Worker index) ''nil pointer dereference'', s3)
                   | Some r \<Rightarrow>
                       (let s4 = emit (Println ''started writing to buffer'') s3
                        in if index < 0 \<or> int (length (chunks (dl s4))) \<le> index
                           then (Panic (Worker index) ''index out of range'', s4)
                           else (let s5 = set_chunk (nat index) (Body r) s4;
                                     written = int (length (Body r));
                                     err = BodyErr r
                                 in (Return (), emit (PrintCopied written err) s5))))))"

definition processSingle :: "env \<Rightarrow> string \<Rightarrow> state \<Rightarrow> (string \<times> error option) outcome \<times> state" where
  "processSingle e url s =
     (let s1 = emit (Println ''processing single'') s
      in if chunks (dl s1) = [] then (Panic Caller ''index out of range'', s1)
         else (let s2 = set_chunk 0 [] s1;
                   err = NewRequest_err e url
               in if err \<noteq> None then (Return ([], err), s2)
                  else (let s3 = emit (GET url None) s2;
                            (response, err) = client_Do e url None;
                            s4 = (case err of Some x \<Rightarrow> emit (PrintError x) s3 | None \<Rightarrow> s3)
                        in (case response of
                              None \<Rightarrow> (Panic Caller ''nil pointer dereference'', s4)
                            | Some r \<Rightarrow>
                                (let s5 = emit (Println ''started writing to buffer'') s4;
                                     s6 = set_chunk 0 (Body r) s5;
                                     written = int (length (Body r));
                                     err = BodyErr r;
                                     s7 = (case err of Some x \<Rightarrow> emit (PrintError x) s6 | None \<Rightarrow> s6);
                                     s8 = emit (PrintWritten written) s7;
                                     (res, s9) = combineChunks e url s8
                                 in (Return res, s9))))))"

subsection \<open>processMultiple\<close>

text \<open>
  The planning loop
  \<^verbatim>\<open>for startRange, index := 0, 0; startRange < contentLength; startRange += partLength + 1\<close>.
  Taken alone, its result is the list of the ranges it goes through: the two ends of
  each and the index. With the wrap-around of \<open>int\<close> that list need not end; then
  the result is \<open>None\<close>.
\<close>

partial_function (option) rangeLoop :: "int \<Rightarrow> int \<Rightarrow> int \<Rightarrow> int \<Rightarrow> (int \<times> int \<times> int) list option" where
  "rangeLoop contentLength partLength startRange index =
     (if startRange < contentLength then
        (let endRange = wrap64 (startRange + partLength);
             endRange = (if endRange > contentLength then contentLength else endRange)
         in Option.bind
              (rangeLoop contentLength partLength
                 (wrap64 (startRange + wrap64 (partLength + 1))) (wrap64 (index + 1)))
              (\<lambda>rest. Some ((startRange, endRange, index) # rest)))
      else Some [])"

text \<open>The ranges \<^verbatim>\<open>processMultiple\<close> plans for a length and a number of workers.\<close>

definition plannedRanges :: "int \<Rightarrow> int \<Rightarrow> (int \<times> int) list option" where
  "plannedRanges contentLength workers =
     map_option (map (\<lambda>(startRange, endRange, index). (startRange, endRange)))
       (rangeLoop contentLength (go_quo contentLength workers) 0 0)"

definition range_text :: "int \<Rightarrow> int \<Rightarrow> string" where
  "range_text startRange endRange = itoa startRange @ ''-'' @ itoa endRange"

text \<open>
  The loop as \<^verbatim>\<open>processMultiple\<close> runs it: every round starts a goroutine with its
  range and its index. The workers write to chunks of different indices and read
  nothing of each other, so the state they leave does not depend on how they
  interleave: each is run when it is started. A panic of one ends the program.
  \<open>counter\<close> is the counter of the wait group: the \<^verbatim>\<open>wg.Done()\<close> a worker defers
  takes one off and panics when that makes it negative. The loop returns the counter
  it leaves. It ends also where the wrap-around keeps \<open>startRange\<close> below
  \<open>contentLength\<close>: the workers are then more than \<open>workersCount\<close>, and one of them
  panics.
\<close>

function launchLoop ::
  "env \<Rightarrow> string \<Rightarrow> int \<Rightarrow> int \<Rightarrow> int \<Rightarrow> int \<Rightarrow> int \<Rightarrow> state \<Rightarrow> int outcome \<times> state" where
  "launchLoop e url contentLength partLength startRange index counter s =
     (if startRange < contentLength then
        (let endRange = wrap64 (startRange + partLength);
             endRange = (if endRange > contentLength then contentLength else endRange);
             range' = range_text startRange endRange;
             s1 = emit (GoWorker range' index) s;
             r = downloadFileForRange e url range' index s1
         in (case fst r of
               Panic g m \<Rightarrow> (Panic g m, snd r)
             | Hang \<Rightarrow> (Hang, snd r)
             | Return u \<Rightarrow>
                 if counter - 1 < 0
                 then (Panic (Worker index) ''sync: negative WaitGroup counter'', snd r)
                 else launchLoop e url contentLength partLength
                        (wrap64 (startRange + wrap64 (partLength + 1))) (wrap64 (index + 1))
                        (counter - 1) (snd r)))
      else (Return counter, s))"
  by pat_completeness auto
termination
  by (relation "measure (\<lambda>(e, url, contentLength, partLength, startRange, index, counter, s). nat counter)")
    auto

declare launchLoop.simps [simp del]

text \<open>
  The wait group is set to \<open>workersCount\<close> before the loop; \<^verbatim>\<open>wg.Wait()\<close> returns when
  the counter is zero. The result \<open>err\<close> is not assigned before it is tested.
\<close>

definition processMultiple :: "env \<Rightarrow> int \<Rightarrow> string \<Rightarrow> state \<Rightarrow> (string \<times> error option) outcome \<times> state" where
  "processMultiple e contentLength url s =
     (let s1 = emit (Println ''processing multiple'') s;
          workers = workersCount (dl s1)
      in if workers = 0 then (Panic Caller ''integer divide by zero'', s1)
         else (let partLength = go_quo contentLength workers
               in if workers < 0 then (Panic Caller ''sync: negative WaitGroup counter'', s1)
                  else (case launchLoop e url contentLength partLength 0 0 workers s1 of
                          (Panic g m, s2) \<Rightarrow> (Panic g m, s2)
                        | (Hang, s2) \<Rightarrow> (Hang, s2)
                        | (Return counter, s2) \<Rightarrow>
                            (let err = (None :: error option)
                             in if counter > 0 then (Hang, s2)
                                else if err \<noteq> None then (Return ([], err), s2)
                                else (let (res, s3) = combineChunks e url s2 in (Return res, s3))))))"

subsection \<open>float32\<close>

text \<open>
  The progress is computed in \<open>float32\<close>. A finite value that is not negative is a pair
  \<open>(m, e)\<close> for \<open>m * 2 ^ e\<close> with \<open>m < 2 ^ 24\<close> and \<open>-149 \<le> e \<le> 104\<close>. Every
  operation is the exact result rounded to the nearest such value, ties to the even
  mantissa; \<open>None\<close> is a result beyond the largest finite value.
\<close>

type_synonym float32 = "nat \<times> int"

fun nbits :: "nat \<Rightarrow> nat" where
  "nbits n = (if n = 0 then 0 else Suc (nbits (n div 2)))"

declare nbits.simps [simp del]

text \<open>The integer nearest to \<open>p / q\<close>, the even one of two.\<close>

definition rne :: "nat \<Rightarrow> nat \<Rightarrow> nat" where
  "rne p q =
     (let k = p div q; r = p mod q
      in if 2 * r < q then k else if q < 2 * r then k + 1 else if even k then k else k + 1)"

text \<open>The fraction \<open>(p / q) / 2 ^ e\<close>.\<close>

definition scale_frac :: "nat \<Rightarrow> nat \<Rightarrow> int \<Rightarrow> nat \<times> nat" where
  "scale_frac p q e = (if 0 \<le> e then (p, q * 2 ^ nat e) else (p * 2 ^ nat (- e), q))"

definition ge_pow2 :: "nat \<Rightarrow> nat \<Rightarrow> int \<Rightarrow> bool" where
  "ge_pow2 p q t = (snd (scale_frac p q t) \<le> fst (scale_frac p q t))"

text \<open>
  The exponent of the last place of \<open>p / q\<close>: 23 below the exponent of its leading
  bit, and not below that of the subnormal values.
\<close>

definition f32_exponent :: "nat \<Rightarrow> nat \<Rightarrow> int" where
  "f32_exponent p q =
     (let t = int (nbits p) - int (nbits q)
      in max (- 149) ((if ge_pow2 p q t then t else t - 1) - 23))"

definition f32_round :: "nat \<Rightarrow> nat \<Rightarrow> float32 option" where
  "f32_round p q =
     (if p = 0 then Some (0, 0)
      else (let e = f32_exponent p q;
                m = rne (fst (scale_frac p q e)) (snd (scale_frac p q e));
                e' = (if m = 2 ^ 24 then e + 1 else e);
                m' = (if m = 2 ^ 24 then 2 ^ 23 else m)
            in if 104 < e' then None else Some (m', e')))"

definition f32_of_nat :: "nat \<Rightarrow> float32 option" where
  "f32_of_nat n = f32_round n 1"

definition f32_div :: "float32 \<Rightarrow> float32 \<Rightarrow> float32 option" where
  "f32_div x y =
     (if fst y = 0 then None
      else f32_round (fst (scale_frac (fst x) (fst y) (snd y - snd x)))
                     (snd (scale_frac (fst x) (fst y) (snd y - snd x))))"

definition f32_mul :: "float32 \<Rightarrow> float32 \<Rightarrow> float32 option" where
  "f32_mul x y =
     f32_round (fst (scale_frac (fst x * fst y) 1 (- (snd x + snd y))))
               (snd (scale_frac (fst x * fst y) 1 (- (snd x + snd y))))"

text \<open>The conversion to an integer drops the fraction.\<close>

definition f32_trunc :: "float32 \<Rightarrow> nat" where
  "f32_trunc x = (if 0 \<le> snd x then fst x * 2 ^ nat (snd x) else fst x div 2 ^ nat (- snd x))"

subsection \<open>progress\<close>

text \<open>
  \<^verbatim>\<open>int((float32(chunk.Len()) / float32(totalLen)) * 100)\<close> for a chunk of \<open>len\<close> bytes. A
  negative \<open>totalLen\<close> gives the opposite of the value for \<open>- totalLen\<close>: rounding to
  nearest is symmetric and the conversion truncates. The result is \<open>None\<close> where the
  language leaves the converted value to the implementation: for \<open>totalLen = 0\<close>
  (a division by zero, infinite or not a number) and for a value outside \<open>int\<close>.
\<close>

definition chunk_percent :: "nat \<Rightarrow> int \<Rightarrow> int option" where
  "chunk_percent len totalLen =
     (if totalLen = 0 then None
      else do {
        a \<leftarrow> f32_of_nat len;
        b \<leftarrow> f32_of_nat (nat \<bar>totalLen\<bar>);
        c \<leftarrow> f32_div a b;
        h \<leftarrow> f32_of_nat 100;
        d \<leftarrow> f32_mul c h;
        (if 0 < totalLen
         then (if int (f32_trunc d) \<le> maxInt then Some (int (f32_trunc d)) else None)
         else (if minInt \<le> - int (f32_trunc d) then Some (- int (f32_trunc d)) else None))
      })"

text \<open>The loop over \<open>d.chunks\<close> that adds the percentages up.\<close>

fun sum_percent :: "int \<Rightarrow> bytes list \<Rightarrow> int \<Rightarrow> int option" where
  "sum_percent totalLen [] totalDownloaded = Some totalDownloaded"
| "sum_percent totalLen (chunk # rest) totalDownloaded =
     (case chunk_percent (length chunk) totalLen of
        None \<Rightarrow> None
      | Some t \<Rightarrow> sum_percent totalLen rest (wrap64 (totalDownloaded + t)))"

text \<open>One round of the loop of \<^verbatim>\<open>progress\<close>: the value it sends for the chunks it reads.\<close>

definition progressSample :: "bytes list \<Rightarrow> int \<Rightarrow> int option" where
  "progressSample cs totalLen =
     (case sum_percent totalLen cs 0 of
        None \<Rightarrow> None
      | Some totalDownloaded \<Rightarrow> Some (if totalDownloaded > 100 then 100 else totalDownloaded))"

text \<open>
  The loop of \<^verbatim>\<open>progress\<close>, round by round, and what it does to the channel
  \<open>progressChan\<close>. A round begins with the \<^verbatim>\<open>select\<close>: when the context is done the
  function returns. Otherwise it reads the chunks, computes the value and sends it; the
  channel has no buffer, so the send waits until the reader takes the value, for ever
  if it never does. Then the function sleeps and goes round again. For each round,
  \<open>rounds\<close> gives what the goroutine meets: whether its context is done at the
  \<^verbatim>\<open>select\<close>, the chunks as it reads them (it reads them while the workers write), and
  whether the reader takes the value. The result is what has been done to the channel,
  and where the goroutine is after these rounds.
\<close>

datatype chan_op = Send "int option" | Close

datatype sampler = Asleep | Returned | Blocked

fun progress :: "int \<Rightarrow> (bool \<times> bytes list \<times> bool) list \<Rightarrow> chan_op list \<times> sampler" where
  "progress totalLen [] = ([], Asleep)"
| "progress totalLen ((ctxDone, cs, taken) # rounds) =
     (if ctxDone then ([], Returned)
      else if \<not> taken then ([], Blocked)
      else (Send (progressSample cs totalLen) # fst (progress totalLen rounds),
            snd (progress totalLen rounds)))"

text \<open>
  The loop \<^verbatim>\<open>for progress := range d.ConsumeProgress()\<close> of the caller receives what is
  sent and ends when the channel is closed: it returns the values it printed, and
  whether it has ended.
\<close>

fun consume :: "chan_op list \<Rightarrow> int option list \<times> bool" where
  "consume [] = ([], False)"
| "consume (Send v # ops) = (v # fst (consume ops), snd (consume ops))"
| "consume (Close # ops) = ([], True)"

subsection \<open>Download\<close>

text \<open>
  The deferred \<^verbatim>\<open>cancel()\<close> runs when \<^verbatim>\<open>Download\<close> returns and when its own goroutine
  panics; not when a worker's panic ends the program, nor when it waits for ever.
\<close>

definition deferred_run :: "'a outcome \<Rightarrow> bool" where
  "deferred_run r = (case r of Return x \<Rightarrow> True | Panic g m \<Rightarrow> g = Caller | Hang \<Rightarrow> False)"

definition Download :: "env \<Rightarrow> string \<Rightarrow> state \<Rightarrow> (string \<times> error option) outcome \<times> state" where
  "Download e fileURL s =
     (let s1 = emit (PrintDownloading fileURL) s
      in (case getRangeDetails e fileURL s1 of
            (Panic g m, s2) \<Rightarrow> (Panic g m, s2)
          | (Hang, s2) \<Rightarrow> (Hang, s2)
          | (Return (isMultipartSupported, contentLength, err), s2) \<Rightarrow>
              if err \<noteq> None then (Return ([], err), s2)
              else (let s3 = (if progressEnabled (dl s2) then emit (GoProgress contentLength) s2 else s2);
                        (r, s4) = (if isMultipartSupported \<and> workersCount (dl s3) > 1
                                   then processMultiple e contentLength fileURL s3
                                   else processSingle e fileURL s3)
                    in (r, if progressEnabled (dl s2) \<and> deferred_run r
                           then emit CancelProgress s4 else s4))))"

section \<open>Runs\<close>

text \<open>
  A server for the examples: it answers HEAD with a status and headers, and a GET with
  the body listed for the \<open>Range\<close> header sent (206, or 200 without the header); a
  request that is not listed fails in the transport, with no response.
\<close>

definition server :: "int \<Rightarrow> (string \<rightharpoonup> string) \<Rightarrow> (string option \<rightharpoonup> bytes) \<Rightarrow> env" where
  "server status headers bodies =
     \<lparr>client_Head = (\<lambda>url. (Some \<lparr>StatusCode = status, Header = headers, Body = [], BodyErr = None\<rparr>, None)),
      client_Do = (\<lambda>url rangeHeader.
         case bodies rangeHeader of
           None \<Rightarrow> (None, Some (TransportError ''connection refused''))
         | Some b \<Rightarrow> (Some \<lparr>StatusCode = (if rangeHeader = None then 200 else 206),
                             Header = headers, Body = b, BodyErr = None\<rparr>, None)),
      NewRequest_err = (\<lambda>url. None),
      os_Getwd = (''/home/u'', None),
      os_Create_err = (\<lambda>p. None)\<rparr>"

text \<open>The state after \<^verbatim>\<open>NewDownloader(n)\<close> and \<^verbatim>\<open>WithProgress(p, 300)\<close>, on an empty directory.\<close>

definition fresh :: "int \<Rightarrow> bool \<Rightarrow> state" where
  "fresh n p =
     \<lparr>dl = \<lparr>workersCount = n, chunks = replicate (nat n) [],
             progressEnabled = p, progressCalcInterval = 300\<rparr>,
      files = Map.empty, disk_free = 1000000, trace = []\<rparr>"

definition ranged_headers :: "string \<Rightarrow> (string \<rightharpoonup> string)" where
  "ranged_headers len = [''Content-Length'' \<mapsto> len, ''Accept-Ranges'' \<mapsto> ''bytes'']"

text \<open>
  \<^verbatim>\<open>progress\<close> beside a call of \<^verbatim>\<open>Download\<close>. The goroutine is there from
  \<^verbatim>\<open>go d.progress(ctx, contentLength)\<close> on, and its context is done from the deferred
  \<^verbatim>\<open>cancel()\<close> on. \<open>new_events\<close> are the events of the call, \<open>after_start\<close> gives the
  length \<^verbatim>\<open>progress\<close> was started with and the events that follow its start. Each
  round of \<^verbatim>\<open>progress\<close> comes with its place in time: the number of these events that
  are before its \<^verbatim>\<open>select\<close>. No other function of the program sends on the channel
  or closes it, so the operations of \<^verbatim>\<open>progress\<close> are those on the channel.
\<close>

definition new_events :: "env \<Rightarrow> string \<Rightarrow> state \<Rightarrow> event list" where
  "new_events e fileURL s = drop (length (trace s)) (trace (snd (Download e fileURL s)))"

fun after_start :: "event list \<Rightarrow> (int \<times> event list) option" where
  "after_start [] = None"
| "after_start (GoProgress totalLen # evs) = Some (totalLen, evs)"
| "after_start (ev # evs) = after_start evs"

definition sampler_run ::
  "env \<Rightarrow> string \<Rightarrow> state \<Rightarrow> (nat \<times> bytes list \<times> bool) list \<Rightarrow> (chan_op list \<times> sampler) option" where
  "sampler_run e fileURL s rounds =
     (case after_start (new_events e fileURL s) of
        None \<Rightarrow> None
      | Some (totalLen, evs) \<Rightarrow>
          Some (progress totalLen
                  (map (\<lambda>(k, cs, taken). (CancelProgress \<in> set (take k evs), cs, taken)) rounds)))"

definition channel_ops :: "env \<Rightarrow> string \<Rightarrow> state \<Rightarrow> (nat \<times> bytes list \<times> bool) list \<Rightarrow> chan_op list" where
  "channel_ops e fileURL s rounds =
     (case sampler_run e fileURL s rounds of None \<Rightarrow> [] | Some r \<Rightarrow> fst r)"



text \<open>The workers \<^verbatim>\<open>processMultiple\<close> starts, as the trace has them.\<close>

fun started_workers :: "event list \<Rightarrow> (string \<times> int) list" where
  "started_workers [] = []"
| "started_workers (GoWorker r i # evs) = (r, i) # started_workers evs"
| "started_workers (ev # evs) = started_workers evs"


text \<open>The value of a \<open>float32\<close>, as a real number.\<close>

definition f32_val :: "float32 \<Rightarrow> real" where
  "f32_val x = real (fst x) * 2 powr real_of_int (snd x)"

text \<open>
  The progress sample as the specification words it: the hundredfold of all the bytes in
  the buffers, divided by the total length, and at most 100.
\<close>

definition ProgressSample_spec :: "bytes list \<Rightarrow> int \<Rightarrow> int" where
  "ProgressSample_spec cs totalLength =
     min 100 (sum_list (map (\<lambda>c. int (length c)) cs) * 100 div totalLength)"

subsection \<open>The planning loop without overflow\<close>

text \<open>
  Where no sum leaves the range of \<open>int\<close>, the loop is the following recursion, which
  ends because \<open>startRange\<close> grows.
\<close>

function ranges_from :: "int \<Rightarrow> int \<Rightarrow> int \<Rightarrow> int \<Rightarrow> (int \<times> int \<times> int) list" where
  "ranges_from contentLength partLength startRange index =
     (if startRange < contentLength \<and> 0 \<le> partLength
      then (startRange, min (startRange + partLength) contentLength, index)
             # ranges_from contentLength partLength (startRange + partLength + 1) (index + 1)
      else [])"
  by pat_completeness auto
termination
  by (relation "measure (\<lambda>(contentLength, partLength, startRange, index). nat (contentLength - startRange))") auto

declare ranges_from.simps [simp del]

lemma ranges_from_Nil:
  "\<not> (startRange < contentLength \<and> 0 \<le> partLength)
   \<Longrightarrow> ranges_from contentLength partLength startRange index = []"
  by (subst ranges_from.simps) (rule if_not_P)

lemma ranges_from_Cons:
  "startRange < contentLength \<Longrightarrow> 0 \<le> partLength
   \<Longrightarrow> ranges_from contentLength partLength startRange index
       = (startRange, min (startRange + partLength) contentLength, index)
           # ranges_from contentLength partLength (startRange + partLength + 1) (index + 1)"
  by (subst ranges_from.simps) simp

lemma wrap64_id: "- (2 ^ 63) \<le> x \<Longrightarrow> x < 2 ^ 63 \<Longrightarrow> wrap64 x = x"
  by (simp add: wrap64_def)

lemma go_quo_nonneg: "0 \<le> a \<Longrightarrow> a < 2 ^ 63 \<Longrightarrow> 0 < b \<Longrightarrow> go_quo a b = a div b"
proof -
  assume a: "0 \<le> a" "a < 2 ^ 63" "0 < b"
  have q0: "0 \<le> a div b" using a by (simp add: pos_imp_zdiv_nonneg_iff)
  have q1: "a div b \<le> a" using a by (metis div_pos_pos_trivial int_div_le_self leI nle_le)
  have "sgn a * sgn b * (\<bar>a\<bar> div \<bar>b\<bar>) = a div b"
    using a by (cases "a = 0") (simp_all add: sgn_if)
  then have "go_quo a b = wrap64 (a div b)" by (simp add: go_quo_def)
  also have "\<dots> = a div b" using q0 q1 a by (intro wrap64_id) auto
  finally show ?thesis .
qed

lemma rangeLoop_ranges_from:
  "0 \<le> partLength \<Longrightarrow> 0 \<le> index \<Longrightarrow> index \<le> startRange
   \<Longrightarrow> contentLength + partLength + 1 < 2 ^ 63
   \<Longrightarrow> rangeLoop contentLength partLength startRange index
       = Some (ranges_from contentLength partLength startRange index)"
proof (induction contentLength partLength startRange index rule: ranges_from.induct)
  case (1 contentLength partLength startRange index)
  show ?case
  proof (cases "startRange < contentLength")
    case False
    then show ?thesis
      by (subst rangeLoop.simps) (simp add: ranges_from_Nil)
  next
    case True
    have w1: "wrap64 (startRange + partLength) = startRange + partLength"
      using 1(2-5) True by (intro wrap64_id) auto
    have w2: "wrap64 (partLength + 1) = partLength + 1"
      using 1(2-5) True by (intro wrap64_id) auto
    have w3: "wrap64 (startRange + (partLength + 1)) = startRange + partLength + 1"
      using 1(2-5) True by (subst wrap64_id) auto
    have w4: "wrap64 (index + 1) = index + 1"
      using 1(2-5) True by (intro wrap64_id) auto
    have ih: "rangeLoop contentLength partLength (startRange + partLength + 1) (index + 1)
        = Some (ranges_from contentLength partLength (startRange + partLength + 1) (index + 1))"
      using 1(1) 1(2-5) True by auto
    show ?thesis
      using True 1(2)
      by (subst rangeLoop.simps)
         (simp add: ranges_from_Cons w1 w2 w3 w4 ih Let_def min_def)
  qed
qed

lemma ranges_from_bounds:
  "(a, b, i) \<in> set (ranges_from contentLength partLength startRange index)
   \<Longrightarrow> startRange \<le> a \<and> a < contentLength \<and> a \<le> b \<and> b \<le> contentLength \<and> b \<le> a + partLength"
proof (induction contentLength partLength startRange index rule: ranges_from.induct)
  case (1 contentLength partLength startRange index)
  show ?case
  proof (cases "startRange < contentLength \<and> 0 \<le> partLength")
    case False
    with 1(2) show ?thesis by (simp add: ranges_from_Nil)
  next
    case True
    from 1(2) True
    consider "(a, b, i) = (startRange, min (startRange + partLength) contentLength, index)"
      | "(a, b, i) \<in> set (ranges_from contentLength partLength (startRange + partLength + 1) (index + 1))"
      by (auto simp: ranges_from_Cons)
    then show ?thesis
    proof cases
      case 1
      with True show ?thesis by auto
    next
      case 2
      from "1.IH" [OF True 2] True show ?thesis by auto
    qed
  qed
qed

lemma ranges_from_start:
  "r \<in> set (ranges_from contentLength partLength startRange index) \<Longrightarrow> startRange \<le> fst r"
  using ranges_from_bounds [of "fst r" "fst (snd r)" "snd (snd r)" contentLength partLength startRange index]
  by simp

lemma ranges_from_ordered:
  "sorted_wrt (\<lambda>x y. fst (snd x) < fst y) (ranges_from contentLength partLength startRange index)"
proof (induction contentLength partLength startRange index rule: ranges_from.induct)
  case (1 contentLength partLength startRange index)
  show ?case
  proof (cases "startRange < contentLength \<and> 0 \<le> partLength")
    case False
    then show ?thesis by (simp add: ranges_from_Nil)
  next
    case True
    let ?rest = "ranges_from contentLength partLength (startRange + partLength + 1) (index + 1)"
    have step: "ranges_from contentLength partLength startRange index
        = (startRange, min (startRange + partLength) contentLength, index) # ?rest"
      using True by (simp add: ranges_from_Cons)
    have "min (startRange + partLength) contentLength < fst y" if "y \<in> set ?rest" for y
    proof -
      have "startRange + partLength + 1 \<le> fst y"
        using that by (rule ranges_from_start)
      then show ?thesis by linarith
    qed
    with "1.IH" [OF True] show ?thesis
      by (simp add: step)
  qed
qed

lemma ranges_from_adjacent:
  "successively (\<lambda>x y. fst y = fst (snd x) + 1) (ranges_from contentLength partLength startRange index)"
proof (induction contentLength partLength startRange index rule: ranges_from.induct)
  case (1 contentLength partLength startRange index)
  show ?case
  proof (cases "startRange < contentLength \<and> 0 \<le> partLength")
    case False
    then show ?thesis by (simp add: ranges_from_Nil)
  next
    case True
    let ?rest = "ranges_from contentLength partLength (startRange + partLength + 1) (index + 1)"
    have step: "ranges_from contentLength partLength startRange index
        = (startRange, min (startRange + partLength) contentLength, index) # ?rest"
      using True by (simp add: ranges_from_Cons)
    show ?thesis
    proof (cases "startRange + partLength + 1 < contentLength")
      case False
      then have "?rest = []" by (simp add: ranges_from_Nil)
      then show ?thesis by (simp add: step)
    next
      case next_in: True
      have "?rest = (startRange + partLength + 1,
                     min (startRange + partLength + 1 + partLength) contentLength, index + 1)
                  # ranges_from contentLength partLength
                      (startRange + partLength + 1 + partLength + 1) (index + 1 + 1)"
        using next_in True by (simp add: ranges_from_Cons)
      with "1.IH" [OF True] next_in show ?thesis
        by (simp add: step)
    qed
  qed
qed

lemma ranges_from_cover:
  "0 \<le> partLength \<Longrightarrow> startRange \<le> b \<Longrightarrow> b < contentLength
   \<Longrightarrow> \<exists>r \<in> set (ranges_from contentLength partLength startRange index). fst r \<le> b \<and> b \<le> fst (snd r)"
proof (induction contentLength partLength startRange index rule: ranges_from.induct)
  case (1 contentLength partLength startRange index)
  then have go: "startRange < contentLength \<and> 0 \<le> partLength" by auto
  have step: "ranges_from contentLength partLength startRange index
      = (startRange, min (startRange + partLength) contentLength, index)
          # ranges_from contentLength partLength (startRange + partLength + 1) (index + 1)"
    using go by (subst ranges_from.simps) simp
  show ?case
  proof (cases "b \<le> startRange + partLength")
    case True
    with 1(3,4) show ?thesis by (simp add: step)
  next
    case False
    then have "startRange + partLength + 1 \<le> b" by simp
    from "1.IH" [OF go 1(2) this 1(4)] show ?thesis by (auto simp: step)
  qed
qed

lemma ranges_from_index:
  "map (\<lambda>r. snd (snd r)) (ranges_from contentLength partLength startRange index)
     = map (\<lambda>k. index + int k) [0 ..< length (ranges_from contentLength partLength startRange index)]"
proof (induction contentLength partLength startRange index rule: ranges_from.induct)
  case (1 contentLength partLength startRange index)
  show ?case
  proof (cases "startRange < contentLength \<and> 0 \<le> partLength")
    case False
    then show ?thesis by (simp add: ranges_from_Nil)
  next
    case True
    let ?rest = "ranges_from contentLength partLength (startRange + partLength + 1) (index + 1)"
    have step: "ranges_from contentLength partLength startRange index
        = (startRange, min (startRange + partLength) contentLength, index) # ?rest"
      using True by (simp add: ranges_from_Cons)
    have "[0 ..< Suc (length ?rest)] = 0 # map Suc [0 ..< length ?rest]"
      by (simp add: upt_conv_Cons map_Suc_upt del: upt_Suc)
    with "1.IH" [OF True] show ?thesis
      by (simp add: step comp_def add.assoc del: upt_Suc)
  qed
qed

text \<open>All ranges but the last take \<open>partLength + 1\<close> bytes of the length that is left.\<close>

lemma ranges_from_length:
  "0 \<le> partLength \<Longrightarrow> startRange < contentLength
   \<Longrightarrow> (int (length (ranges_from contentLength partLength startRange index)) - 1) * (partLength + 1)
         < contentLength - startRange"
proof (induction contentLength partLength startRange index rule: ranges_from.induct)
  case (1 contentLength partLength startRange index)
  then have go: "startRange < contentLength \<and> 0 \<le> partLength" by auto
  let ?rest = "ranges_from contentLength partLength (startRange + partLength + 1) (index + 1)"
  have step: "ranges_from contentLength partLength startRange index
      = (startRange, min (startRange + partLength) contentLength, index) # ?rest"
    using go by (subst ranges_from.simps) simp
  show ?case
  proof (cases "startRange + partLength + 1 < contentLength")
    case False
    then have "?rest = []" by (simp add: ranges_from_Nil)
    with go show ?thesis by (simp add: step)
  next
    case True
    from "1.IH" [OF go 1(2) True]
    have "(int (length ?rest) - 1) * (partLength + 1) < contentLength - (startRange + partLength + 1)" .
    then show ?thesis by (simp add: step algebra_simps)
  qed
qed

section \<open>What the functions leave in the trace and in the downloader\<close>

lemma trace_emit [simp]: "trace (emit ev s) = trace s @ [ev]"
  by (simp add: emit_def)

lemma dl_emit [simp]: "dl (emit ev s) = dl s"
  by (simp add: emit_def)

lemma files_emit [simp]: "files (emit ev s) = files s"
  by (simp add: emit_def)

lemma disk_free_emit [simp]: "disk_free (emit ev s) = disk_free s"
  by (simp add: emit_def)

lemma trace_set_chunk [simp]: "trace (set_chunk i b s) = trace s"
  by (simp add: set_chunk_def)

lemma files_set_chunk [simp]: "files (set_chunk i b s) = files s"
  by (simp add: set_chunk_def)

lemma disk_free_set_chunk [simp]: "disk_free (set_chunk i b s) = disk_free s"
  by (simp add: set_chunk_def)

lemma chunks_set_chunk [simp]: "chunks (dl (set_chunk i b s)) = (chunks (dl s))[i := b]"
  by (simp add: set_chunk_def)

lemma workersCount_set_chunk [simp]: "workersCount (dl (set_chunk i b s)) = workersCount (dl s)"
  by (simp add: set_chunk_def)

lemma progressEnabled_set_chunk [simp]: "progressEnabled (dl (set_chunk i b s)) = progressEnabled (dl s)"
  by (simp add: set_chunk_def)

lemma trace_file_Write [simp]: "trace (snd (file_Write p b s)) = trace s"
  by (simp add: file_Write_def Let_def)

lemma dl_file_Write [simp]: "dl (snd (file_Write p b s)) = dl s"
  by (simp add: file_Write_def Let_def)

lemma trace_Buffer_WriteTo [simp]: "trace (snd (Buffer_WriteTo i p s)) = trace s"
  by (simp add: Buffer_WriteTo_def Let_def case_prod_unfold)

lemma trace_combine_loop [simp]: "trace (snd (combine_loop i p s)) = trace s"
proof (induction i p s rule: combine_loop.induct)
  case (1 i p s)
  show ?case
  proof (cases "i < length (chunks (dl s))")
    case False
    then show ?thesis by (subst combine_loop.simps) simp
  next
    case True
    show ?thesis
    proof (cases "snd (fst (Buffer_WriteTo i p s)) \<noteq> None")
      case err: True
      with True show ?thesis
        by (subst combine_loop.simps) (simp add: Let_def)
    next
      case False
      with True "1.IH" [OF True refl refl refl] show ?thesis
        by (subst combine_loop.simps) (simp add: Let_def)
    qed
  qed
qed

lemma trace_os_Create [simp]: "trace (snd (os_Create e p s)) = trace s"
  by (simp add: os_Create_def split: option.splits)

lemma trace_combineChunks [simp]: "trace (snd (combineChunks e url s)) = trace s"
  by (simp add: combineChunks_def Let_def case_prod_unfold)

text \<open>The two lines that tell which way \<^verbatim>\<open>Download\<close> went.\<close>

definition banner :: "event \<Rightarrow> bool" where
  "banner ev = (ev = Println ''processing single'' \<or> ev = Println ''processing multiple'')"

lemma banner_simps [simp]:
  "banner (Println ''processing single'')" "banner (Println ''processing multiple'')"
  "\<not> banner (Println ''started writing to buffer'')"
  "\<not> banner (PrintDownloading u)" "\<not> banner (PrintRangeStarted r)" "\<not> banner (PrintError x)"
  "\<not> banner (PrintWritten n)" "\<not> banner (PrintCopied n err)" "\<not> banner (HEAD u)"
  "\<not> banner (GET u h)" "\<not> banner (GoWorker r i)" "\<not> banner (GoProgress n)" "\<not> banner CancelProgress"
  by (simp_all add: banner_def)

lemma banner_downloadFileForRange:
  "filter banner (trace (snd (downloadFileForRange e url r i s))) = filter banner (trace s)"
  by (simp add: downloadFileForRange_def Let_def case_prod_unfold split: option.splits)

lemma launchLoop_stop:
  "\<not> startRange < contentLength
   \<Longrightarrow> launchLoop e url contentLength partLength startRange index counter s = (Return counter, s)"
  by (subst launchLoop.simps) simp

lemma launchLoop_step:
  "startRange < contentLength
   \<Longrightarrow> launchLoop e url contentLength partLength startRange index counter s
     = (let endRange = (if wrap64 (startRange + partLength) > contentLength
                        then contentLength else wrap64 (startRange + partLength));
            r = downloadFileForRange e url (range_text startRange endRange) index
                  (emit (GoWorker (range_text startRange endRange) index) s)
        in (case fst r of
              Panic g m \<Rightarrow> (Panic g m, snd r)
            | Hang \<Rightarrow> (Hang, snd r)
            | Return u \<Rightarrow>
                if counter - 1 < 0
                then (Panic (Worker index) ''sync: negative WaitGroup counter'', snd r)
                else launchLoop e url contentLength partLength
                       (wrap64 (startRange + wrap64 (partLength + 1))) (wrap64 (index + 1))
                       (counter - 1) (snd r)))"
  by (subst launchLoop.simps) (simp add: Let_def)

lemma banner_launchLoop:
  "filter banner (trace (snd (launchLoop e url contentLength partLength startRange index counter s)))
     = filter banner (trace s)"
proof (induction e url contentLength partLength startRange index counter s rule: launchLoop.induct)
  case (1 e url contentLength partLength startRange index counter s)
  show ?case
  proof (cases "startRange < contentLength")
    case False
    then show ?thesis by (simp add: launchLoop_stop)
  next
    case True
    define endRange where
      "endRange = (if wrap64 (startRange + partLength) > contentLength
                   then contentLength else wrap64 (startRange + partLength))"
    define r where
      "r = downloadFileForRange e url (range_text startRange endRange) index
             (emit (GoWorker (range_text startRange endRange) index) s)"
    have w: "filter banner (trace (snd r)) = filter banner (trace s)"
      by (simp add: r_def banner_downloadFileForRange)
    have ih: "filter banner (trace (snd (launchLoop e url contentLength partLength
                 (wrap64 (startRange + wrap64 (partLength + 1))) (wrap64 (index + 1))
                 (counter - 1) (snd r))))
        = filter banner (trace (snd r))"
      if "fst r = Return u" "\<not> counter - 1 < 0" for u
      using "1.IH" [OF True refl refl refl refl refl, of u] that
      by (simp add: r_def endRange_def)
    show ?thesis
      using w ih
      by (simp add: launchLoop_step [OF True] Let_def endRange_def [symmetric] r_def [symmetric]
          split: outcome.splits)
  qed
qed

lemma banner_processSingle:
  "filter banner (trace (snd (processSingle e url s)))
     = filter banner (trace s) @ [Println ''processing single'']"
  by (simp add: processSingle_def Let_def case_prod_unfold split: option.splits)

lemma banner_processMultiple:
  "filter banner (trace (snd (processMultiple e contentLength url s)))
     = filter banner (trace s) @ [Println ''processing multiple'']"
  by (simp add: processMultiple_def Let_def case_prod_unfold banner_launchLoop
      split: outcome.splits)


lemma getRangeDetails_state: "snd (getRangeDetails e url s) = emit (HEAD url) s"
  by (simp add: getRangeDetails_def Let_def case_prod_unfold split: option.splits)

lemma banner_Download:
  assumes "fst (getRangeDetails e fileURL (emit (PrintDownloading fileURL) s))
             = Return (rangesSupported, contentLength, None)"
  shows "filter banner (trace (snd (Download e fileURL s)))
     = filter banner (trace s)
        @ [if rangesSupported \<and> 1 < workersCount (dl s)
           then Println ''processing multiple'' else Println ''processing single'']"
proof -
  let ?s1 = "emit (PrintDownloading fileURL) s"
  have probe: "getRangeDetails e fileURL ?s1
      = (Return (rangesSupported, contentLength, None), emit (HEAD fileURL) ?s1)"
    using assms getRangeDetails_state [of e fileURL ?s1] by (metis prod.collapse)
  show ?thesis
    by (simp add: Download_def probe Let_def case_prod_unfold
        banner_processMultiple banner_processSingle)
qed

lemmas run_defs = Download_def getRangeDetails_def server_def fresh_def emit_def processSingle_def
  processMultiple_def downloadFileForRange_def
  set_chunk_def combineChunks_def path_Join_def filepath_Base_def path_Clean_def os_Create_def
  Buffer_WriteTo_def file_Write_def itoa_def digit_char_def Let_def Header_Get_def Atoi_def
  deferred_run_def ranged_headers_def range_text_def is_digit_def digits_value_def
  go_quo_def wrap64_def maxInt_def minInt_def



lemmas f32_defs = progressSample_def chunk_percent_def f32_of_nat_def f32_div_def f32_mul_def
  f32_trunc_def f32_round_def f32_exponent_def ge_pow2_def scale_frac_def rne_def nbits.simps
  Let_def wrap64_def maxInt_def minInt_def

lemma Close_notin_progress: "Close \<notin> set (fst (progress totalLen rounds))"
  by (induction rounds) (auto split: if_splits)

lemma consume_progress: "\<not> snd (consume (fst (progress totalLen rounds)))"
  by (induction rounds) (auto split: if_splits)

text \<open>From the first round that finds the context done, nothing more is sent.\<close>

lemma progress_done:
  "progress totalLen (before @ (True, cs, taken) # later)
     = (fst (progress totalLen before),
        if snd (progress totalLen before) = Asleep then Returned else snd (progress totalLen before))"
  by (induction before) (auto split: if_splits)

lemma prefix_emit: "prefix (trace s) (trace t) \<Longrightarrow> prefix (trace s) (trace (emit ev t))"
  by (simp add: prefix_def) auto

lemma prefix_downloadFileForRange:
  "prefix (trace s) (trace (snd (downloadFileForRange e url r i s)))"
  by (simp add: downloadFileForRange_def Let_def case_prod_unfold prefix_emit split: option.splits)

lemma prefix_launchLoop:
  "prefix (trace s) (trace (snd (launchLoop e url contentLength partLength startRange index counter s)))"
proof (induction e url contentLength partLength startRange index counter s rule: launchLoop.induct)
  case (1 e url contentLength partLength startRange index counter s)
  show ?case
  proof (cases "startRange < contentLength")
    case False
    then show ?thesis by (simp add: launchLoop_stop)
  next
    case True
    define endRange where
      "endRange = (if wrap64 (startRange + partLength) > contentLength
                   then contentLength else wrap64 (startRange + partLength))"
    define r where
      "r = downloadFileForRange e url (range_text startRange endRange) index
             (emit (GoWorker (range_text startRange endRange) index) s)"
    have w: "prefix (trace s) (trace (snd r))"
      unfolding r_def
      using prefix_downloadFileForRange [of "emit (GoWorker (range_text startRange endRange) index) s"]
      by (meson prefix_emit prefix_order.refl prefix_order.trans)
    have ih: "prefix (trace s) (trace (snd (launchLoop e url contentLength partLength
                 (wrap64 (startRange + wrap64 (partLength + 1))) (wrap64 (index + 1))
                 (counter - 1) (snd r))))"
      if "fst r = Return u" "\<not> counter - 1 < 0" for u
    proof -
      have "prefix (trace (snd r)) (trace (snd (launchLoop e url contentLength partLength
                 (wrap64 (startRange + wrap64 (partLength + 1))) (wrap64 (index + 1))
                 (counter - 1) (snd r))))"
        using "1.IH" [OF True refl refl refl refl refl, of u] that
        by (simp add: r_def endRange_def)
      with w show ?thesis by (rule prefix_order.trans)
    qed
    show ?thesis
      using w ih
      by (simp add: launchLoop_step [OF True] Let_def endRange_def [symmetric] r_def [symmetric]
          split: outcome.splits)
  qed
qed

lemma prefix_processSingle:
  "prefix (trace s) (trace (snd (processSingle e url s)))"
  by (simp add: processSingle_def Let_def case_prod_unfold prefix_emit split: option.splits)

lemma prefix_processMultiple:
  "prefix (trace s) (trace (snd (processMultiple e contentLength url s)))"
proof -
  have "prefix (trace s) (trace (snd (launchLoop e url contentLength partLength 0 0 counter
          (emit (Println ''processing multiple'') s))))"
    for partLength counter
    using prefix_launchLoop [of "emit (Println ''processing multiple'') s"]
    by (meson prefix_emit prefix_order.refl prefix_order.trans)
  then show ?thesis
    by (simp add: processMultiple_def Let_def case_prod_unfold prefix_emit
        split: outcome.splits)
qed

lemma sampler_run_progress:
  "sampler_run e fileURL s rounds = Some r \<Longrightarrow> \<exists>totalLen rs. r = progress totalLen rs"
  by (auto simp: sampler_run_def split: option.splits)

lemma Close_notin_channel_ops: "Close \<notin> set (channel_ops e fileURL s rounds)"
proof (cases "sampler_run e fileURL s rounds")
  case None
  then show ?thesis by (simp add: channel_ops_def)
next
  case (Some r)
  then show ?thesis
    using sampler_run_progress [OF Some] Close_notin_progress
    by (auto simp: channel_ops_def)
qed

lemma consume_channel_ops: "\<not> snd (consume (channel_ops e fileURL s rounds))"
proof (cases "sampler_run e fileURL s rounds")
  case None
  then show ?thesis by (simp add: channel_ops_def)
next
  case (Some r)
  then show ?thesis
    using sampler_run_progress [OF Some] consume_progress
    by (auto simp: channel_ops_def)
qed

lemma new_events_Download_ok:
  assumes "fst (getRangeDetails e fileURL (emit (PrintDownloading fileURL) s))
             = Return (rangesSupported, contentLength, None)"
    and "progressEnabled (dl s)" and "fst (Download e fileURL s) = Return res"
  shows "\<exists>evs. new_events e fileURL s
           = [PrintDownloading fileURL, HEAD fileURL, GoProgress contentLength] @ evs @ [CancelProgress]"
proof -
  let ?s1 = "emit (PrintDownloading fileURL) s"
  let ?s2 = "emit (HEAD fileURL) ?s1"
  let ?s3 = "emit (GoProgress contentLength) ?s2"
  have probe: "getRangeDetails e fileURL ?s1 = (Return (rangesSupported, contentLength, None), ?s2)"
    using assms(1) getRangeDetails_state [of e fileURL ?s1] by (metis prod.collapse)
  define b where "b = (if rangesSupported \<and> 1 < workersCount (dl s)
      then processMultiple e contentLength fileURL ?s3 else processSingle e fileURL ?s3)"
  have "prefix (trace ?s3) (trace (snd b))"
    unfolding b_def
    using prefix_processMultiple [of ?s3 e contentLength fileURL] prefix_processSingle [of ?s3 e fileURL]
    by simp
  then obtain evs where evs: "trace (snd b) = trace ?s3 @ evs"
    by (auto simp: prefix_def)
  have d: "Download e fileURL s
      = (fst b, if deferred_run (fst b) then emit CancelProgress (snd b) else snd b)"
    using assms(2) by (simp add: Download_def probe Let_def case_prod_unfold b_def)
  from d assms(3) have "fst b = Return res" by simp
  then have "trace (snd (Download e fileURL s)) = trace (snd b) @ [CancelProgress]"
    by (simp add: d deferred_run_def)
  then show ?thesis
    by (simp add: new_events_def evs)
qed

section \<open>Writing the chunks\<close>




subsection \<open>The workers started and the planned ranges\<close>

lemma started_workers_append [simp]:
  "started_workers (xs @ ys) = started_workers xs @ started_workers ys"
  by (induction xs rule: started_workers.induct) simp_all

lemma started_downloadFileForRange:
  "started_workers (trace (snd (downloadFileForRange e url r i s))) = started_workers (trace s)"
  by (simp add: downloadFileForRange_def Let_def case_prod_unfold split: option.splits)

lemma rangeLoop_stop:
  "\<not> startRange < contentLength \<Longrightarrow> rangeLoop contentLength partLength startRange index = Some []"
  by (subst rangeLoop.simps) simp

lemma rangeLoop_step:
  "startRange < contentLength
   \<Longrightarrow> rangeLoop contentLength partLength startRange index
     = Option.bind
         (rangeLoop contentLength partLength
            (wrap64 (startRange + wrap64 (partLength + 1))) (wrap64 (index + 1)))
         (\<lambda>rest. Some ((startRange,
              (if wrap64 (startRange + partLength) > contentLength
               then contentLength else wrap64 (startRange + partLength)), index) # rest))"
  by (subst rangeLoop.simps) (simp add: Let_def)

text \<open>
  When the loop of \<^verbatim>\<open>processMultiple\<close> returns, the workers it has started are those
  of the planned ranges, in their order, and each has taken one off the counter.
\<close>

lemma launchLoop_planned:
  "rangeLoop contentLength partLength startRange index = Some planned
   \<Longrightarrow> fst (launchLoop e url contentLength partLength startRange index counter s) = Return c
   \<Longrightarrow> started_workers (trace (snd (launchLoop e url contentLength partLength startRange index counter s)))
         = started_workers (trace s) @ map (\<lambda>(a, b, i). (range_text a b, i)) planned
       \<and> c = counter - int (length planned)"
proof (induction e url contentLength partLength startRange index counter s arbitrary: planned
    rule: launchLoop.induct)
  case (1 e url contentLength partLength startRange index counter s)
  show ?case
  proof (cases "startRange < contentLength")
    case False
    with 1(2,3) show ?thesis
      by (simp add: launchLoop_stop rangeLoop_stop)
  next
    case True
    define endRange where
      "endRange = (if wrap64 (startRange + partLength) > contentLength
                   then contentLength else wrap64 (startRange + partLength))"
    define r where
      "r = downloadFileForRange e url (range_text startRange endRange) index
             (emit (GoWorker (range_text startRange endRange) index) s)"
    let ?next = "launchLoop e url contentLength partLength
                 (wrap64 (startRange + wrap64 (partLength + 1))) (wrap64 (index + 1))
                 (counter - 1) (snd r)"
    obtain rest where rest: "rangeLoop contentLength partLength
            (wrap64 (startRange + wrap64 (partLength + 1))) (wrap64 (index + 1)) = Some rest"
      and planned: "planned = (startRange, endRange, index) # rest"
      using 1(2) by (auto simp: rangeLoop_step [OF True] bind_eq_Some_conv endRange_def)
    have unfold: "launchLoop e url contentLength partLength startRange index counter s
        = (case fst r of
              Panic g m \<Rightarrow> (Panic g m, snd r)
            | Hang \<Rightarrow> (Hang, snd r)
            | Return u \<Rightarrow>
                if counter - 1 < 0
                then (Panic (Worker index) ''sync: negative WaitGroup counter'', snd r)
                else ?next)"
      unfolding r_def endRange_def by (simp add: launchLoop_step [OF True] Let_def)
    from 1(3) obtain u where u: "fst r = Return u" and pos: "\<not> counter - 1 < 0"
      and c: "fst ?next = Return c"
      by (auto simp: unfold split: outcome.splits if_splits)
    have w: "started_workers (trace (snd r))
        = started_workers (trace s) @ [(range_text startRange endRange, index)]"
      by (simp add: r_def started_downloadFileForRange)
    have ih: "started_workers (trace (snd ?next))
          = started_workers (trace (snd r)) @ map (\<lambda>(a, b, i). (range_text a b, i)) rest
        \<and> c = counter - 1 - int (length rest)"
      using "1.IH" [OF True refl refl refl refl refl, of u rest] u pos rest c
      by (simp add: r_def endRange_def)
    show ?thesis
      using ih w u pos by (simp add: unfold planned)
  qed
qed


section \<open>Paths\<close>

subsection \<open>The name of the file\<close>












section \<open>The arithmetic of the progress\<close>

lemma nbits_0: "nbits 0 = 0"
  by (simp add: nbits.simps)

lemma nbits_pos: "0 < n \<Longrightarrow> nbits n = Suc (nbits (n div 2))"
  by (subst nbits.simps) simp

lemma nbits_1: "nbits (Suc 0) = 1"
  by (simp add: nbits_pos nbits_0)

lemma nbits_bounds: "0 < n \<Longrightarrow> 2 ^ (nbits n - 1) \<le> n \<and> n < 2 ^ nbits n"
proof (induction n rule: less_induct)
  case (less n)
  show ?case
  proof (cases "n div 2 = 0")
    case True
    with less.prems have "n = 1"
      by (simp add: div_eq_0_iff) 
    then show ?thesis
      by (simp add: nbits_1)
  next
    case False
    then have pos: "0 < n div 2" and lt: "n div 2 < n"
      using less.prems by simp_all
    from less.IH [OF lt pos]
    have lo: "2 ^ (nbits (n div 2) - 1) \<le> n div 2" and hi: "n div 2 < 2 ^ nbits (n div 2)"
      by simp_all
    have k: "nbits (n div 2) = Suc (nbits (n div 2) - 1)"
      using pos by (simp add: nbits_pos)
    have n: "nbits n = Suc (nbits (n div 2))"
      using less.prems by (rule nbits_pos)
    have "(2 :: nat) ^ nbits (n div 2) = 2 * 2 ^ (nbits (n div 2) - 1)"
      by (subst k) simp
    with lo have "2 ^ nbits (n div 2) \<le> 2 * (n div 2)"
      by simp
    then have a: "2 ^ (nbits n - 1) \<le> n"
      unfolding n by simp
    have b: "n < 2 ^ nbits n"
      unfolding n using hi by simp
    show ?thesis
      using a b by simp
  qed
qed

lemma rne_ge_div: "p div q \<le> rne p q"
  by (simp add: rne_def Let_def)

lemma rne_le_double: "0 < q \<Longrightarrow> rne p q * q \<le> 2 * p"
proof -
  assume q: "0 < q"
  define k where "k = p div q * q"
  define r where "r = p mod q"
  have p: "p = k + r"
    by (simp add: k_def r_def)
  show ?thesis
  proof (cases "2 * r < q")
    case True
    then have "rne p q * q = k"
      by (simp add: rne_def Let_def k_def r_def)
    then show ?thesis
      using p by simp
  next
    case False
    then have "rne p q \<le> p div q + 1"
      by (simp add: rne_def Let_def)
    then have "rne p q * q \<le> (p div q + 1) * q"
      by (rule mult_le_mono1)
    then have "rne p q * q \<le> k + q"
      by (simp add: k_def)
    then show ?thesis
      using False p by simp
  qed
qed

lemma powr_int_nat: "0 \<le> e \<Longrightarrow> 2 powr real_of_int e = 2 ^ nat e"
  using powr_realpow [of 2 "nat e"] by simp

lemma scale_frac_pos: "0 < q \<Longrightarrow> 0 < snd (scale_frac p q e)"
  by (simp add: scale_frac_def)

lemma scale_frac_val:
  assumes "0 < q"
  shows "real (fst (scale_frac p q e)) / real (snd (scale_frac p q e))
           = real p / real q * 2 powr (- real_of_int e)"
proof (cases "0 \<le> e")
  case True
  have "2 powr (- real_of_int e) = 1 / 2 ^ nat e"
    using powr_int_nat [OF True] by (simp add: powr_minus inverse_eq_divide)
  then show ?thesis
    using True by (simp add: scale_frac_def)
next
  case False
  then have "2 powr real_of_int (- e) = 2 ^ nat (- e)"
    by (intro powr_int_nat) simp
  then have "2 powr (- real_of_int e) = 2 ^ nat (- e)"
    by simp
  then show ?thesis
    using False by (simp add: scale_frac_def)
qed

lemma f32_round_val:
  assumes "f32_round p q = Some x" and "0 < p"
  shows "f32_val x
           = real (rne (fst (scale_frac p q (f32_exponent p q))) (snd (scale_frac p q (f32_exponent p q))))
               * 2 powr real_of_int (f32_exponent p q)"
proof -
  define e where "e = f32_exponent p q"
  define m where "m = rne (fst (scale_frac p q e)) (snd (scale_frac p q e))"
  have x: "x = (if m = 2 ^ 24 then (2 ^ 23, e + 1) else (m, e))"
    using assms by (auto simp: f32_round_def Let_def e_def m_def split: if_splits)
  have "2 powr real_of_int (e + 1) = 2 * 2 powr real_of_int e"
    by (simp add: powr_add)
  then have "f32_val x = real m * 2 powr real_of_int e"
    by (simp add: x f32_val_def)
  then show ?thesis
    by (simp add: m_def e_def)
qed

lemma f32_round_le:
  assumes "f32_round p q = Some x" and "0 < q"
  shows "f32_val x \<le> 2 * (real p / real q)"
proof (cases "p = 0")
  case True
  then have "x = (0, 0)"
    using assms(1) by (simp add: f32_round_def)
  then show ?thesis
    by (simp add: f32_val_def)
next
  case False
  define e where "e = f32_exponent p q"
  define P where "P = fst (scale_frac p q e)"
  define Q where "Q = snd (scale_frac p q e)"
  have Q: "0 < Q"
    unfolding Q_def using assms(2) by (rule scale_frac_pos)
  have r: "real P / real Q = real p / real q * 2 powr (- real_of_int e)"
    unfolding P_def Q_def using assms(2) by (rule scale_frac_val)
  have v: "f32_val x = real (rne P Q) * 2 powr real_of_int e"
    using f32_round_val [OF assms(1)] False by (simp add: P_def Q_def e_def)
  have "rne P Q * Q \<le> 2 * P"
    using Q by (rule rne_le_double)
  then have "real (rne P Q * Q) \<le> real (2 * P)"
    by (rule iffD2 [OF of_nat_le_iff])
  then have "real (rne P Q) * real Q \<le> 2 * real P"
    by simp
  then have "real (rne P Q) \<le> 2 * (real P / real Q)"
    using Q by (simp add: pos_le_divide_eq)
  then have "real (rne P Q) \<le> 2 * (real p / real q) * 2 powr (- real_of_int e)"
    by (simp add: r)
  then have "real (rne P Q) * 2 powr real_of_int e
      \<le> 2 * (real p / real q) * 2 powr (- real_of_int e) * 2 powr real_of_int e"
    by (intro mult_right_mono) simp_all
  also have "\<dots> = 2 * (real p / real q)"
    by (simp add: powr_minus)
  finally show ?thesis
    by (simp add: v)
qed

lemma f32_exponent_le:
  assumes "0 < p" and "0 < q" and "real p < 2 ^ 100 * real q"
  shows "f32_exponent p q \<le> 77"
proof -
  have "2 ^ (nbits p - 1) \<le> p"
    using nbits_bounds [OF assms(1)] by simp
  also have "p < 2 ^ 100 * q"
    using assms(3) by (metis of_nat_less_iff of_nat_mult of_nat_numeral of_nat_power)
  also have "2 ^ 100 * q < 2 ^ 100 * 2 ^ nbits q"
    using nbits_bounds [OF assms(2)] by simp
  finally have "(2 :: nat) ^ (nbits p - 1) < 2 ^ (100 + nbits q)"
    by (simp add: power_add)
  then have "nbits p - 1 < 100 + nbits q"
    by (rule power_less_imp_less_exp [rotated]) simp
  then have "int (nbits p) - int (nbits q) \<le> 100"
    by simp
  then show ?thesis
    by (simp add: f32_exponent_def Let_def)
qed

lemma f32_round_defined:
  assumes "0 < q" and "real p < 2 ^ 100 * real q"
  shows "\<exists>x. f32_round p q = Some x"
proof (cases "p = 0")
  case True
  then show ?thesis
    by (simp add: f32_round_def)
next
  case False
  then have "f32_exponent p q \<le> 77"
    using assms by (intro f32_exponent_le) simp_all
  then show ?thesis
    using False by (simp add: f32_round_def Let_def)
qed

lemma real_div_bounds:
  assumes "0 < Q"
  shows "real (P div Q) \<le> real P / real Q" and "real P / real Q - 1 \<le> real (P div Q)"
proof -
  define k where "k = P div Q"
  define r where "r = P mod Q"
  have "P = k * Q + r"
    by (simp add: k_def r_def)
  then have "real P = real k * real Q + real r"
    by (metis of_nat_add of_nat_mult)
  then have e: "real P / real Q = real k + real r / real Q"
    using assms by (simp add: field_simps)
  have "r < Q"
    unfolding r_def using assms by simp
  then have "real r / real Q \<le> 1"
    using assms by simp
  then show "real (P div Q) \<le> real P / real Q" and "real P / real Q - 1 \<le> real (P div Q)"
    by (simp_all add: e k_def [symmetric])
qed

lemma f32_round_ge:
  assumes "f32_round p q = Some x" and "0 < p" and "0 < q"
  shows "real p / real q - 2 powr real_of_int (f32_exponent p q) \<le> f32_val x"
proof -
  define e where "e = f32_exponent p q"
  define P where "P = fst (scale_frac p q e)"
  define Q where "Q = snd (scale_frac p q e)"
  have r: "real P / real Q = real p / real q * 2 powr (- real_of_int e)"
    unfolding P_def Q_def using assms(3) by (rule scale_frac_val)
  have v: "f32_val x = real (rne P Q) * 2 powr real_of_int e"
    using f32_round_val [OF assms(1,2)] by (simp add: P_def Q_def e_def)
  have Q: "0 < Q"
    unfolding Q_def using assms(3) by (rule scale_frac_pos)
  have "real P / real Q - 1 \<le> real (P div Q)"
    using Q by (rule real_div_bounds)
  also have "\<dots> \<le> real (rne P Q)"
    using rne_ge_div [of P Q] by simp
  finally have le: "real P / real Q - 1 \<le> real (rne P Q)" .
  have m: "(real P / real Q - 1) * 2 powr real_of_int e \<le> real (rne P Q) * 2 powr real_of_int e"
    by (rule mult_right_mono [OF le]) simp
  have eq: "(real P / real Q - 1) * 2 powr real_of_int e = real p / real q - 2 powr real_of_int e"
    by (simp add: r left_diff_distrib powr_minus)
  have "real p / real q - 2 powr real_of_int e \<le> real (rne P Q) * 2 powr real_of_int e"
    using m by (simp only: eq)
  then show ?thesis
    by (simp only: v e_def)
qed

lemma f32_exponent_of_nat:
  assumes "0 < n"
  shows "f32_exponent n 1 = int (nbits n) - 24"
proof -
  have n: "0 < nbits n"
    using assms by (simp add: nbits_pos)
  then have "nat (int (nbits n) - 1) = nbits n - 1"
    by simp
  then have "ge_pow2 n 1 (int (nbits n) - 1)"
    using nbits_bounds [OF assms] n by (simp add: ge_pow2_def scale_frac_def)
  then show ?thesis
    using n by (simp add: f32_exponent_def Let_def nbits_1)
qed

lemma f32_of_nat_ge:
  assumes "f32_of_nat n = Some x" and "0 < n"
  shows "real n / 2 \<le> f32_val x"
proof -
  define e where "e = f32_exponent n 1"
  have r: "f32_round n 1 = Some x"
    using assms(1) by (simp add: f32_of_nat_def)
  have n: "nbits n = Suc (nbits n - 1)"
    using assms(2) by (simp add: nbits_pos)
  have "e = int (nbits n) - 24"
    unfolding e_def using assms(2) by (rule f32_exponent_of_nat)
  then have "real_of_int e = real (nbits n - 1) + (- 23)"
    by (subst (asm) n) simp
  then have "2 powr real_of_int e = 2 powr real (nbits n - 1) * 2 powr (- 23)"
    by (simp only: powr_add)
  also have "\<dots> = 2 ^ (nbits n - 1) * 2 powr (- 23)"
    by (simp add: powr_realpow)
  also have "\<dots> \<le> real n * 2 powr (- 23)"
  proof (intro mult_right_mono)
    have "real (2 ^ (nbits n - 1)) \<le> real n"
      using nbits_bounds [OF assms(2)] by (intro iffD2 [OF of_nat_le_iff]) simp
    then show "2 ^ (nbits n - 1) \<le> real n"
      by simp
  qed simp
  also have "\<dots> \<le> real n * (1 / 2)"
    by (intro mult_left_mono) (simp_all add: powr_minus)
  finally have a: "2 powr real_of_int e \<le> real n / 2"
    by simp
  have "real n / real 1 - 2 powr real_of_int (f32_exponent n 1) \<le> f32_val x"
    using r assms(2) by (intro f32_round_ge) simp_all
  then have "real n - 2 powr real_of_int e \<le> f32_val x"
    by (simp add: e_def)
  then show ?thesis
    using a by simp
qed

lemma f32_of_nat_le:
  assumes "f32_of_nat n = Some x"
  shows "f32_val x \<le> 2 * real n"
  using f32_round_le [of n 1 x] assms by (simp add: f32_of_nat_def)

lemma f32_of_nat_defined:
  assumes "real n < 2 ^ 100"
  shows "\<exists>x. f32_of_nat n = Some x"
  using f32_round_defined [of 1 n] assms by (simp add: f32_of_nat_def)

lemma f32_trunc_le: "real (f32_trunc x) \<le> f32_val x"
proof (cases "0 \<le> snd x")
  case True
  then show ?thesis
    by (simp add: f32_trunc_def f32_val_def powr_int_nat)
next
  case False
  then have "2 powr real_of_int (- snd x) = 2 ^ nat (- snd x)"
    by (intro powr_int_nat) simp
  then have "inverse (2 powr real_of_int (- snd x)) = 1 / 2 ^ nat (- snd x)"
    by (simp only: inverse_eq_divide)
  moreover have "2 powr real_of_int (snd x) = inverse (2 powr real_of_int (- snd x))"
    using powr_minus [of 2 "real_of_int (- snd x)"] by simp
  ultimately have p: "2 powr real_of_int (snd x) = 1 / 2 ^ nat (- snd x)"
    by simp
  have "real (fst x div 2 ^ nat (- snd x)) \<le> real (fst x) / real (2 ^ nat (- snd x))"
    by (intro real_div_bounds) simp
  then show ?thesis
    using False by (simp add: f32_trunc_def f32_val_def p)
qed

lemma f32_round_bounds:
  assumes "0 < q" and "real p / real q < 2 ^ 100"
  shows "\<exists>x. f32_round p q = Some x \<and> f32_val x \<le> 2 * (real p / real q)"
proof -
  have "real p < 2 ^ 100 * real q"
    using assms by (simp add: pos_divide_less_eq)
  then obtain x where "f32_round p q = Some x"
    using f32_round_defined [OF assms(1)] by blast
  then show ?thesis
    using f32_round_le [OF _ assms(1)] by blast
qed

lemma f32_div_bounds:
  assumes "0 < fst b" and "f32_val a / f32_val b < 2 ^ 100"
  shows "\<exists>c. f32_div a b = Some c \<and> f32_val c \<le> 2 * (f32_val a / f32_val b)"
proof -
  define P where "P = fst (scale_frac (fst a) (fst b) (snd b - snd a))"
  define Q where "Q = snd (scale_frac (fst a) (fst b) (snd b - snd a))"
  have Q: "0 < Q"
    unfolding Q_def using assms(1) by (rule scale_frac_pos)
  have "real P / real Q = real (fst a) / real (fst b) * 2 powr (- real_of_int (snd b - snd a))"
    unfolding P_def Q_def using assms(1) by (rule scale_frac_val)
  also have "2 powr (- real_of_int (snd b - snd a))
      = 2 powr real_of_int (snd a) / 2 powr real_of_int (snd b)"
    by (simp add: powr_diff)
  finally have r: "real P / real Q = f32_val a / f32_val b"
    by (simp add: f32_val_def)
  have "\<exists>x. f32_round P Q = Some x \<and> f32_val x \<le> 2 * (real P / real Q)"
    using Q assms(2) unfolding r [symmetric] by (rule f32_round_bounds)
  then show ?thesis
    using assms(1) by (simp add: f32_div_def P_def Q_def r [unfolded P_def Q_def])
qed

lemma f32_mul_bounds:
  assumes "f32_val a * f32_val b < 2 ^ 100"
  shows "\<exists>c. f32_mul a b = Some c \<and> f32_val c \<le> 2 * (f32_val a * f32_val b)"
proof -
  define P where "P = fst (scale_frac (fst a * fst b) 1 (- (snd a + snd b)))"
  define Q where "Q = snd (scale_frac (fst a * fst b) 1 (- (snd a + snd b)))"
  have Q: "0 < Q"
    unfolding Q_def by (rule scale_frac_pos) simp
  have "real P / real Q = real (fst a * fst b) / real 1 * 2 powr (- real_of_int (- (snd a + snd b)))"
    unfolding P_def Q_def by (rule scale_frac_val) simp
  also have "2 powr (- real_of_int (- (snd a + snd b)))
      = 2 powr real_of_int (snd a) * 2 powr real_of_int (snd b)"
    by (simp add: powr_add)
  finally have r: "real P / real Q = f32_val a * f32_val b"
    by (simp add: f32_val_def)
  have "\<exists>x. f32_round P Q = Some x \<and> f32_val x \<le> 2 * (real P / real Q)"
    using Q assms unfolding r [symmetric] by (rule f32_round_bounds)
  then obtain x where x: "f32_round P Q = Some x" and le: "f32_val x \<le> 2 * (real P / real Q)"
    by blast
  have "f32_mul a b = Some x"
    unfolding f32_mul_def P_def [symmetric] Q_def [symmetric] by (rule x)
  moreover have "f32_val x \<le> 2 * (f32_val a * f32_val b)"
    using le by (simp only: r)
  ultimately show ?thesis
    by blast
qed

lemma f32_of_nat_100: "f32_of_nat 100 = Some (13107200, - 17)"
  by (simp add: f32_defs)

lemma f32_val_100: "f32_val (13107200, - 17) = 100"
  by (simp add: f32_val_def powr_minus)

lemma chunk_percent_bounds:
  assumes "0 < totalLen" and "totalLen \<le> maxInt" and "len < 2 ^ 50"
  shows "\<exists>v. chunk_percent len totalLen = Some v \<and> 0 \<le> v \<and> v \<le> 1600 * int len"
proof -
  have p100: "(2 :: real) ^ 100 = 1267650600228229401496703205376"
    by simp
  have l50: "real len < 1125899906842624"
    using assms(3) by simp
  then have len: "real len < 2 ^ 100"
    unfolding p100 by linarith
  then obtain a where a: "f32_of_nat len = Some a"
    using f32_of_nat_defined by blast
  have va: "f32_val a \<le> 2 * real len"
    using a by (rule f32_of_nat_le)
  have "real (nat totalLen) < 2 ^ 100"
    using assms(1,2) by (simp add: maxInt_def)
  then obtain b where b: "f32_of_nat (nat totalLen) = Some b"
    using f32_of_nat_defined by blast
  have "real (nat totalLen) / 2 \<le> f32_val b"
    using b assms(1) by (intro f32_of_nat_ge) simp_all
  then have vb: "1 / 2 \<le> f32_val b"
    using assms(1) by simp
  have fb: "0 < fst b"
  proof (rule ccontr)
    assume "\<not> 0 < fst b"
    then have "f32_val b = 0"
      by (simp add: f32_val_def)
    then show False
      using vb by simp
  qed
  have "f32_val a / f32_val b \<le> 2 * real len / (1 / 2)"
    using va vb by (intro frac_le) simp_all
  then have ab: "f32_val a / f32_val b \<le> 4 * real len"
    by simp
  then have "f32_val a / f32_val b < 2 ^ 100"
    unfolding p100 using l50 by linarith
  then obtain c where c: "f32_div a b = Some c" and "f32_val c \<le> 2 * (f32_val a / f32_val b)"
    using f32_div_bounds [OF fb] by blast
  then have vc: "f32_val c \<le> 8 * real len"
    using ab by linarith
  then have "f32_val c * f32_val (13107200, - 17) < 2 ^ 100"
    unfolding p100 f32_val_100 using l50 by linarith
  then obtain d where d: "f32_mul c (13107200, - 17) = Some d"
      and "f32_val d \<le> 2 * (f32_val c * f32_val (13107200, - 17))"
    using f32_mul_bounds by blast
  then have "f32_val d \<le> 1600 * real len"
    unfolding f32_val_100 using vc by linarith
  then have "real (f32_trunc d) \<le> real (1600 * len)"
    using f32_trunc_le [of d] by simp
  then have t: "f32_trunc d \<le> 1600 * len"
    by (rule iffD1 [OF of_nat_le_iff])
  then have "int (f32_trunc d) \<le> maxInt"
    using assms(3) by (simp add: maxInt_def)
  then have "chunk_percent len totalLen = Some (int (f32_trunc d))"
    using assms(1) by (simp add: chunk_percent_def a b c d f32_of_nat_100)
  then show ?thesis
    using t by simp
qed

lemma f32_round_same:
  assumes "0 < m"
  shows "f32_round m m = Some (8388608, - 23)"
proof -
  have e: "f32_exponent m m = - 23"
    by (simp add: f32_exponent_def ge_pow2_def scale_frac_def)
  have s: "scale_frac m m (- 23) = (m * 8388608, m)"
    by (simp add: scale_frac_def)
  have r: "rne (m * 8388608) m = 8388608"
    using assms by (simp add: rne_def)
  show ?thesis
    using assms by (simp add: f32_round_def e s r)
qed

lemma f32_round_0: "f32_round 0 q = Some (0, 0)"
  by (simp add: f32_round_def)

lemma fst_scale_frac_0: "fst (scale_frac 0 q e) = 0"
  by (simp add: scale_frac_def)

lemma f32_of_nat_pos:
  assumes "0 < n" and "real n < 2 ^ 100"
  shows "\<exists>b. f32_of_nat n = Some b \<and> 0 < fst b"
proof -
  obtain b where b: "f32_of_nat n = Some b"
    using f32_of_nat_defined [OF assms(2)] by blast
  have "real n / 2 \<le> f32_val b"
    using b assms(1) by (rule f32_of_nat_ge)
  then have vb: "0 < f32_val b"
    using assms(1) by simp
  have "0 < fst b"
  proof (rule ccontr)
    assume "\<not> 0 < fst b"
    then have "f32_val b = 0"
      by (simp add: f32_val_def)
    then show False
      using vb by simp
  qed
  then show ?thesis
    using b by blast
qed

lemma chunk_percent_full:
  assumes "0 < totalLen" and "totalLen \<le> maxInt"
  shows "chunk_percent (nat totalLen) totalLen = Some 100"
proof -
  have "real (nat totalLen) < 2 ^ 100"
    using assms by (simp add: maxInt_def)
  then obtain b where b: "f32_of_nat (nat totalLen) = Some b" and fb: "0 < fst b"
    using f32_of_nat_pos [of "nat totalLen"] assms(1) by auto
  have c: "f32_div b b = Some (8388608, - 23)"
    using fb by (simp add: f32_div_def scale_frac_def f32_round_same)
  have d: "f32_mul (8388608, - 23) (13107200, - 17) = Some (13107200, - 17)"
    by (simp add: f32_defs)
  have t: "f32_trunc (13107200, - 17) = 100"
    by (simp add: f32_trunc_def)
  show ?thesis
    using assms(1) by (simp add: chunk_percent_def b c d t f32_of_nat_100 maxInt_def)
qed

lemma chunk_percent_empty:
  assumes "0 < totalLen" and "totalLen \<le> maxInt"
  shows "chunk_percent 0 totalLen = Some 0"
proof -
  have "real (nat totalLen) < 2 ^ 100"
    using assms by (simp add: maxInt_def)
  then obtain b where b: "f32_of_nat (nat totalLen) = Some b" and fb: "0 < fst b"
    using f32_of_nat_pos [of "nat totalLen"] assms(1) by auto
  have a: "f32_of_nat 0 = Some (0, 0)"
    by (simp add: f32_of_nat_def f32_round_0)
  have c: "f32_div (0, 0) b = Some (0, 0)"
    using fb by (simp add: f32_div_def fst_scale_frac_0 f32_round_0)
  have d: "f32_mul (0, 0) (13107200, - 17) = Some (0, 0)"
    by (simp add: f32_mul_def fst_scale_frac_0 f32_round_0)
  show ?thesis
    using assms(1) by (simp add: chunk_percent_def a b c d f32_of_nat_100 f32_trunc_def maxInt_def)
qed

lemma sum_percent_bounds:
  assumes "0 < totalLen" and "totalLen \<le> maxInt"
  shows "length (concat cs) < 2 ^ 50 \<Longrightarrow> 0 \<le> acc
         \<Longrightarrow> acc + 1600 * int (length (concat cs)) \<le> maxInt
         \<Longrightarrow> \<exists>ps. map (\<lambda>c. chunk_percent (length c) totalLen) cs = map Some ps
                  \<and> (\<forall>p \<in> set ps. 0 \<le> p)
                  \<and> sum_percent totalLen cs acc = Some (acc + sum_list ps)"
proof (induction cs arbitrary: acc)
  case Nil
  then show ?case
    by simp
next
  case (Cons c cs)
  have "length c < 2 ^ 50"
    using Cons.prems(1) by simp
  then obtain v where v: "chunk_percent (length c) totalLen = Some v"
      and v0: "0 \<le> v" and v1: "v \<le> 1600 * int (length c)"
    using chunk_percent_bounds [OF assms] by blast
  have w: "wrap64 (acc + v) = acc + v"
    using Cons.prems(2,3) v0 v1 by (intro wrap64_id) (simp_all add: maxInt_def)
  have "\<exists>ps. map (\<lambda>c. chunk_percent (length c) totalLen) cs = map Some ps
          \<and> (\<forall>p \<in> set ps. 0 \<le> p)
          \<and> sum_percent totalLen cs (acc + v) = Some (acc + v + sum_list ps)"
    using Cons.prems v0 v1 by (intro Cons.IH) simp_all
  then obtain ps where ps: "map (\<lambda>c. chunk_percent (length c) totalLen) cs = map Some ps"
      and p0: "\<forall>p \<in> set ps. 0 \<le> p"
      and s: "sum_percent totalLen cs (acc + v) = Some (acc + v + sum_list ps)"
    by blast
  have "map (\<lambda>c. chunk_percent (length c) totalLen) (c # cs) = map Some (v # ps)"
    using v ps by simp
  moreover have "\<forall>p \<in> set (v # ps). 0 \<le> p"
    using v0 p0 by simp
  moreover have "sum_percent totalLen (c # cs) acc = Some (acc + sum_list (v # ps))"
    using v w s by (simp add: add.assoc)
  ultimately show ?case
    by blast
qed

lemma sum_percent_empties:
  assumes "0 < totalLen" and "totalLen \<le> maxInt" and "0 \<le> acc" and "acc \<le> 100"
  shows "sum_percent totalLen (replicate i [] @ rest) acc = sum_percent totalLen rest acc"
proof (induction i)
  case 0
  show ?case
    by simp
next
  case (Suc i)
  have "wrap64 acc = acc"
    using assms(3,4) by (intro wrap64_id) simp_all
  then show ?case
    using Suc by (simp add: chunk_percent_empty [OF assms(1,2)])
qed

lemma progressSample_one_full:
  assumes "0 < totalLen" and "totalLen \<le> maxInt" and "length c = nat totalLen"
  shows "progressSample (replicate i [] @ c # replicate j []) totalLen = Some 100"
proof -
  have "sum_percent totalLen (replicate i [] @ c # replicate j []) 0
      = sum_percent totalLen (c # replicate j []) 0"
    using assms(1,2) by (rule sum_percent_empties) simp_all
  also have "\<dots> = sum_percent totalLen (replicate j [] @ []) 100"
    by (simp add: assms(3) chunk_percent_full [OF assms(1,2)] wrap64_id)
  also have "\<dots> = sum_percent totalLen [] 100"
    using assms(1,2) by (rule sum_percent_empties) simp_all
  finally show ?thesis
    by (simp add: progressSample_def)
qed


section \<open>The range planner\<close>

lemma planned_ranges_from:
  assumes "0 \<le> totalLength" "1 \<le> workerCount"
    and "totalLength + totalLength div workerCount + 1 < 2 ^ 63"
  shows "plannedRanges totalLength workerCount
    = Some (map (\<lambda>(startRange, endRange, index). (startRange, endRange))
        (ranges_from totalLength (totalLength div workerCount) 0 0))"
proof -
  have p: "0 \<le> totalLength div workerCount"
    using assms by (simp add: pos_imp_zdiv_nonneg_iff)
  with assms have "totalLength < 2 ^ 63" by linarith
  with assms have q: "go_quo totalLength workerCount = totalLength div workerCount"
    by (intro go_quo_nonneg) auto
  show ?thesis
    using rangeLoop_ranges_from [of "totalLength div workerCount" 0 0 totalLength] p assms(3)
    by (simp add: plannedRanges_def q)
qed

text \<open>
  Claim C4, as the code has it. For a total length that is not negative and at least
  one worker, such that \<open>totalLength + totalLength div workerCount + 1\<close> is within
  \<open>int\<close>, the planning loop ends, and its ranges (both ends included) are pairwise
  non-overlapping and in strictly increasing start order, each starts right after the
  one before it ends, every byte of \<open>[0, totalLength)\<close> lies in one of them, and none
  goes below 0 or beyond \<open>totalLength\<close>.
\<close>

theorem planned_ranges_partition:
  assumes "0 \<le> totalLength" "1 \<le> workerCount"
    and "totalLength + totalLength div workerCount + 1 < 2 ^ 63"
  shows "\<exists>rs. plannedRanges totalLength workerCount = Some rs
    \<and> sorted_wrt (\<lambda>a b. snd a < fst b) rs
    \<and> sorted_wrt (\<lambda>a b. fst a < fst b) rs
    \<and> successively (\<lambda>a b. fst b = snd a + 1) rs
    \<and> (\<forall>b. 0 \<le> b \<and> b < totalLength \<longrightarrow> (\<exists>r \<in> set rs. fst r \<le> b \<and> b \<le> snd r))
    \<and> (\<forall>r \<in> set rs. 0 \<le> fst r \<and> fst r \<le> snd r \<and> snd r \<le> totalLength)"
proof -
  define p where "p = totalLength div workerCount"
  define ts where "ts = ranges_from totalLength p 0 0"
  define rs where "rs = map (\<lambda>(startRange, endRange, index). (startRange, endRange)) ts"
  have p: "0 \<le> p"
    using assms by (simp add: p_def pos_imp_zdiv_nonneg_iff)
  have planned: "plannedRanges totalLength workerCount = Some rs"
    using planned_ranges_from [OF assms] by (simp add: rs_def ts_def p_def)
  have fst_rs: "fst ((\<lambda>(startRange, endRange, index). (startRange, endRange)) t) = fst t"
    and snd_rs: "snd ((\<lambda>(startRange, endRange, index). (startRange, endRange)) t) = fst (snd t)" for t :: "int \<times> int \<times> int"
    by (cases t, simp)+
  have bounds: "0 \<le> fst t \<and> fst t \<le> fst (snd t) \<and> fst (snd t) \<le> totalLength" if "t \<in> set ts" for t
    using ranges_from_bounds [of "fst t" "fst (snd t)" "snd (snd t)" totalLength p 0 0] that
    by (simp add: ts_def)
  have ordered: "sorted_wrt (\<lambda>a b. snd a < fst b) rs"
    using ranges_from_ordered [of totalLength p 0 0]
    by (simp add: rs_def ts_def sorted_wrt_map fst_rs snd_rs)
  have "sorted_wrt (\<lambda>x y. fst x < fst y) ts"
    using ranges_from_ordered [of totalLength p 0 0] bounds
    unfolding ts_def [symmetric]
    by (rule_tac sorted_wrt_mono_rel [where P = "\<lambda>x y. fst (snd x) < fst y"]) force+
  then have starts: "sorted_wrt (\<lambda>a b. fst a < fst b) rs"
    by (simp add: rs_def sorted_wrt_map fst_rs)
  have adjacent: "successively (\<lambda>a b. fst b = snd a + 1) rs"
    using ranges_from_adjacent [of totalLength p 0 0]
    by (simp add: rs_def ts_def successively_map fst_rs snd_rs)
  have cover: "\<exists>r \<in> set rs. fst r \<le> b \<and> b \<le> snd r" if "0 \<le> b \<and> b < totalLength" for b
  proof -
    from ranges_from_cover [of p 0 b totalLength 0] p that
    obtain t where "t \<in> set ts" "fst t \<le> b" "b \<le> fst (snd t)"
      by (auto simp: ts_def)
    then show ?thesis
      by (auto simp: rs_def fst_rs snd_rs intro!: bexI [of _ "(\<lambda>(startRange, endRange, index). (startRange, endRange)) t"])
  qed
  have inside: "\<forall>r \<in> set rs. 0 \<le> fst r \<and> fst r \<le> snd r \<and> snd r \<le> totalLength"
    using bounds by (auto simp: rs_def fst_rs snd_rs simp del: split_paired_All)
  from planned ordered starts adjacent cover inside show ?thesis
    by blast
qed

text \<open>The theorem at \<open>totalLength = 10\<close> and three workers.\<close>

theorem planned_ranges_partition_witness:
  "(0 :: int) \<le> 10 \<and> (1 :: int) \<le> 3 \<and> (10 :: int) + 10 div 3 + 1 < 2 ^ 63
   \<and> (\<exists>rs. plannedRanges 10 3 = Some rs
        \<and> sorted_wrt (\<lambda>a b. snd a < fst b) rs
        \<and> sorted_wrt (\<lambda>a b. fst a < fst b) rs
        \<and> successively (\<lambda>a b. fst b = snd a + 1) rs)"
  using planned_ranges_partition [of 10 3] by auto

text \<open>
  Claim C4 as it is written, for every length that is not negative, fails where the
  loop's counter leaves \<open>int\<close>: for the largest length and two workers the third range
  starts at the smallest \<open>int\<close>, after the second, so whatever the loop returns is not
  in increasing start order.
\<close>

theorem planned_ranges_overflow:
  "\<not> (\<exists>rs. plannedRanges 9223372036854775807 2 = Some rs \<and> sorted_wrt (\<lambda>a b. fst a < fst b) rs)"
proof
  assume "\<exists>rs. plannedRanges 9223372036854775807 2 = Some rs \<and> sorted_wrt (\<lambda>a b. fst a < fst b) rs"
  then obtain rs where rs: "plannedRanges 9223372036854775807 2 = Some rs"
    and sorted: "sorted_wrt (\<lambda>a b. fst a < fst b) rs"
    by blast
  from rs have "\<exists>a b c rest. rs = (0, a) # (4611686018427387904, b) # (- 9223372036854775808, c) # rest"
    apply (simp add: plannedRanges_def go_quo_def wrap64_def)
    apply (subst (asm) rangeLoop.simps)
    apply (simp add: wrap64_def Let_def)
    apply (subst (asm) rangeLoop.simps)
    apply (simp add: wrap64_def Let_def)
    apply (subst (asm) rangeLoop.simps)
    apply (simp add: wrap64_def Let_def)
    apply (auto simp: bind_eq_Some_conv)
    done
  with sorted show False by auto
qed

text \<open>
  Claim C7, as the code has it. For \<open>totalLength = 1822199\<close> and five workers the
  planner produces exactly five ranges: 0-364439, 364440-728879, 728880-1093319,
  1093320-1457759 and 1457760-1822199. The fifth is the last: it covers the remainder
  up to byte 1822198, and its end is \<open>totalLength\<close>.
\<close>

theorem planned_1822199_five:
  "plannedRanges 1822199 5
     = Some [(0, 364439), (364440, 728879), (728880, 1093319), (1093320, 1457759),
             (1457760, 1822199)]"
  by (simp add: plannedRanges_def go_quo_def wrap64_def rangeLoop.simps)

text \<open>
  Claim C7 as it is written has a fifth range 1457760-1821959 and a sixth after it;
  the planner's list is not of that form, whatever the sixth range.
\<close>

theorem planned_1822199_no_sixth:
  "\<not> (\<exists>final. plannedRanges 1822199 5
       = Some ([(0, 364439), (364440, 728879), (728880, 1093319), (1093320, 1457759),
                (1457760, 1821959)] @ [final]))"
  by (simp add: plannedRanges_def go_quo_def wrap64_def rangeLoop.simps)

text \<open>
  Claim C10. For \<open>totalLength = 10\<close> and three workers the ranges are 0-3, 4-7 and
  8-10: with at least two workers there are inputs for which the last range ends at
  \<open>totalLength\<close>, one past the last byte of the resource.
\<close>

theorem planned_end_is_length:
  "plannedRanges 10 3 = Some [(0, 3), (4, 7), (8, 10)]
   \<and> (\<exists>totalLength workerCount rs. 2 \<le> workerCount
        \<and> plannedRanges totalLength workerCount = Some rs \<and> rs \<noteq> [] \<and> snd (last rs) = totalLength)"
proof -
  have p: "plannedRanges 10 3 = Some [(0, 3), (4, 7), (8, 10)]"
    by (simp add: plannedRanges_def go_quo_def wrap64_def rangeLoop.simps)
  then have "(2 :: int) \<le> 3 \<and> plannedRanges 10 3 = Some [(0, 3), (4, 7), (8, 10)]
      \<and> [(0, 3), (4, 7), (8, 10 :: int)] \<noteq> [] \<and> snd (last [(0 :: int, 3 :: int), (4, 7), (8, 10)]) = 10"
    by simp
  then show ?thesis using p by blast
qed


section \<open>The probe, the two ways of downloading, the workers\<close>

text \<open>
  Claim C1 says that a HEAD response whose status is neither 200 nor 206 makes the probe
  return an error, so that \<^verbatim>\<open>Download\<close> stops there and sends no GET. The code returns
  the error variable of the client's call, which is \<open>nil\<close> at that point. For a status
  of 404: the probe returns \<open>(false, 0, nil)\<close>, and \<^verbatim>\<open>Download\<close> goes on to the single
  download, sends a GET, writes the body of the answer to the file and returns the
  path with no error.
\<close>

theorem probe_404_no_error:
  "fst (getRangeDetails (server 404 Map.empty [None \<mapsto> ''not found'']) ''http://h/f.bin'' (fresh 5 True))
     = Return (False, 0, None)
   \<and> fst (Download (server 404 Map.empty [None \<mapsto> ''not found'']) ''http://h/f.bin'' (fresh 5 True))
     = Return (''/home/u/f.bin'', None)
   \<and> trace (snd (Download (server 404 Map.empty [None \<mapsto> ''not found'']) ''http://h/f.bin'' (fresh 5 True)))
     = [PrintDownloading ''http://h/f.bin'', HEAD ''http://h/f.bin'', GoProgress 0,
        Println ''processing single'', GET ''http://h/f.bin'' None,
        Println ''started writing to buffer'', PrintWritten 9, CancelProgress]
   \<and> files (snd (Download (server 404 Map.empty [None \<mapsto> ''not found'']) ''http://h/f.bin'' (fresh 5 True)))
       ''/home/u/f.bin'' = Some ''not found''"
  by (simp add: run_defs combine_loop.simps case_prod_unfold)

text \<open>
  Claim C2 says that \<^verbatim>\<open>processMultiple\<close> waits for its workers, combines and returns
  also when the planner gives fewer ranges than \<open>workersCount\<close>. The wait group is set
  to \<open>workersCount\<close>, whatever the number of workers started. For a length of 2 and three
  workers the planner gives the two ranges 0-0 and 1-1, both workers end, and
  \<^verbatim>\<open>wg.Wait()\<close> never returns: neither does \<^verbatim>\<open>processMultiple\<close>, nor \<^verbatim>\<open>Download\<close>.
\<close>

theorem under_allocation_hangs:
  "plannedRanges 2 3 = Some [(0, 0), (1, 1)]
   \<and> fst (processMultiple
        (server 200 (ranged_headers ''2'') [Some ''bytes=0-0'' \<mapsto> ''a'', Some ''bytes=1-1'' \<mapsto> ''b''])
        2 ''http://h/f.bin'' (fresh 3 False)) = Hang
   \<and> fst (Download
        (server 200 (ranged_headers ''2'') [Some ''bytes=0-0'' \<mapsto> ''a'', Some ''bytes=1-1'' \<mapsto> ''b''])
        ''http://h/f.bin'' (fresh 3 False)) = Hang"
  by (simp add: run_defs plannedRanges_def rangeLoop.simps launchLoop.simps digits.simps case_prod_unfold)

text \<open>
  Where the loop's counter wraps around (the largest length, two workers), the loop
  goes on to a third worker, whose index is beyond the chunks: the program panics.
\<close>

lemma wrapped_loop_panics:
  "fst (processMultiple
         (server 200 (ranged_headers ''9223372036854775807'') (\<lambda>h. Some ''x''))
         9223372036854775807 ''http://h/f.bin'' (fresh 2 False))
     = Panic (Worker 2) ''index out of range''"
  by (simp add: run_defs launchLoop.simps digits.simps case_prod_unfold)

text \<open>
  Claim C3 says that an error of the transport in a fetch is logged and leaves the job
  to go on, without a crash. When \<^verbatim>\<open>client.Do\<close> returns an error and no response,
  the worker prints the error and then reads the body through the nil response: it
  panics, and so does the single download; a download in three ranges whose second
  request is refused ends with that panic, and no file is written.
\<close>

theorem transport_error_panics:
  "fst (downloadFileForRange (server 200 (ranged_headers ''10'') Map.empty)
         ''http://h/f.bin'' ''0-3'' 0 (fresh 3 False))
     = Panic (Worker 0) ''nil pointer dereference''
   \<and> fst (processSingle (server 200 (ranged_headers ''10'') Map.empty) ''http://h/f.bin'' (fresh 1 False))
     = Panic Caller ''nil pointer dereference''
   \<and> fst (Download (server 200 (ranged_headers ''10'')
                [Some ''bytes=0-3'' \<mapsto> ''0123'', Some ''bytes=8-10'' \<mapsto> ''89''])
         ''http://h/f.bin'' (fresh 3 False))
     = Panic (Worker 1) ''nil pointer dereference''
   \<and> files (snd (Download (server 200 (ranged_headers ''10'')
                [Some ''bytes=0-3'' \<mapsto> ''0123'', Some ''bytes=8-10'' \<mapsto> ''89''])
         ''http://h/f.bin'' (fresh 3 False))) = Map.empty"
  by (simp add: run_defs launchLoop.simps digits.simps case_prod_unfold)

text \<open>
  Claim C8. When the probe has returned without an error, \<^verbatim>\<open>Download\<close> takes the way of
  \<^verbatim>\<open>processMultiple\<close> if and only if the probe reported that ranges are supported and
  the number of workers is greater than 1, and the way of \<^verbatim>\<open>processSingle\<close> in every
  other case. The way taken shows in what is printed (on a trace that had none of the
  two lines before) and in the result, which is that of the function called on the
  state after the probe.
\<close>

theorem Download_branch:
  assumes "fst (getRangeDetails e fileURL (emit (PrintDownloading fileURL) s))
             = Return (rangesSupported, contentLength, None)"
    and "\<forall>ev \<in> set (trace s). \<not> banner ev"
  shows "(Println ''processing multiple'' \<in> set (trace (snd (Download e fileURL s)))
            \<longleftrightarrow> rangesSupported \<and> 1 < workersCount (dl s))
       \<and> (Println ''processing single'' \<in> set (trace (snd (Download e fileURL s)))
            \<longleftrightarrow> \<not> (rangesSupported \<and> 1 < workersCount (dl s)))
       \<and> fst (Download e fileURL s)
           = (let s3 = (if progressEnabled (dl s)
                        then emit (GoProgress contentLength) (emit (HEAD fileURL) (emit (PrintDownloading fileURL) s))
                        else emit (HEAD fileURL) (emit (PrintDownloading fileURL) s))
              in if rangesSupported \<and> 1 < workersCount (dl s)
                 then fst (processMultiple e contentLength fileURL s3)
                 else fst (processSingle e fileURL s3))"
proof -
  let ?s1 = "emit (PrintDownloading fileURL) s"
  let ?t = "trace (snd (Download e fileURL s))"
  have probe: "getRangeDetails e fileURL ?s1
      = (Return (rangesSupported, contentLength, None), emit (HEAD fileURL) ?s1)"
    using assms(1) getRangeDetails_state [of e fileURL ?s1] by (metis prod.collapse)
  have "filter banner (trace s) = []"
    using assms(2) by (simp add: filter_empty_conv)
  with banner_Download [OF assms(1)]
  have f: "filter banner ?t
      = [if rangesSupported \<and> 1 < workersCount (dl s)
         then Println ''processing multiple'' else Println ''processing single'']"
    by simp
  have m: "ev \<in> set ?t \<longleftrightarrow> ev \<in> set (filter banner ?t)" if "banner ev" for ev
    using that by simp
  have 1: "Println ''processing multiple'' \<in> set ?t \<longleftrightarrow> rangesSupported \<and> 1 < workersCount (dl s)"
    by (subst m) (simp_all add: f)
  have 2: "Println ''processing single'' \<in> set ?t \<longleftrightarrow> \<not> (rangesSupported \<and> 1 < workersCount (dl s))"
    by (subst m) (simp_all add: f)
  have 3: "fst (Download e fileURL s)
           = (let s3 = (if progressEnabled (dl s)
                        then emit (GoProgress contentLength) (emit (HEAD fileURL) (emit (PrintDownloading fileURL) s))
                        else emit (HEAD fileURL) (emit (PrintDownloading fileURL) s))
              in if rangesSupported \<and> 1 < workersCount (dl s)
                 then fst (processMultiple e contentLength fileURL s3)
                 else fst (processSingle e fileURL s3))"
    by (auto simp: Download_def probe Let_def case_prod_unfold)
  from 1 2 3 show ?thesis by blast
qed

text \<open>
  The theorem for a server that supports ranges, with three workers and with one, and
  for a server that does not, with three workers.
\<close>

theorem Download_branch_witness:
  "Println ''processing multiple'' \<in> set (trace (snd (Download
       (server 200 (ranged_headers ''10'') Map.empty) ''http://h/f.bin'' (fresh 3 False))))
   \<and> Println ''processing single'' \<in> set (trace (snd (Download
       (server 200 (ranged_headers ''10'') Map.empty) ''http://h/f.bin'' (fresh 1 False))))
   \<and> Println ''processing single'' \<in> set (trace (snd (Download
       (server 200 [''Content-Length'' \<mapsto> ''10''] Map.empty) ''http://h/f.bin'' (fresh 3 False))))"
proof -
  have p1: "fst (getRangeDetails (server 200 (ranged_headers ''10'') Map.empty) ''http://h/f.bin''
              (emit (PrintDownloading ''http://h/f.bin'') (fresh n False))) = Return (True, 10, None)" for n
    by (simp add: getRangeDetails_def server_def ranged_headers_def Header_Get_def Atoi_def
        is_digit_def digits_value_def maxInt_def Let_def)
  have p2: "fst (getRangeDetails (server 200 [''Content-Length'' \<mapsto> ''10''] Map.empty) ''http://h/f.bin''
              (emit (PrintDownloading ''http://h/f.bin'') (fresh 3 False))) = Return (False, 10, None)"
    by (simp add: getRangeDetails_def server_def Header_Get_def Atoi_def
        is_digit_def digits_value_def maxInt_def Let_def)
  have t: "\<forall>ev \<in> set (trace (fresh n False)). \<not> banner ev" for n
    by (simp add: fresh_def)
  show ?thesis
    using Download_branch [OF p1 t, of 3] Download_branch [OF p1 t, of 1] Download_branch [OF p2 t]
    by (simp add: fresh_def)
qed

text \<open>
  Claim C6, as the code has it. Nothing closes the progress channel: over any call of
  \<^verbatim>\<open>Download\<close>, and whatever the rounds of \<^verbatim>\<open>progress\<close> beside it, the operations
  on the channel are values sent, and the loop of its reader does not end. When the
  probe fails, \<^verbatim>\<open>Download\<close> returns the error after the HEAD request, and
  \<^verbatim>\<open>progress\<close> is never started. When the probe succeeds, the progress is enabled and
  \<^verbatim>\<open>Download\<close> returns, \<^verbatim>\<open>progress\<close> has been started with the length of the probe
  and the last thing \<^verbatim>\<open>Download\<close> does is to cancel its context; in the first round
  that begins after that, \<^verbatim>\<open>progress\<close> finds the context done: it is not asleep
  between two rounds any more (it has returned, unless it is still blocked in a send
  that the reader did not take), and what it has sent, it sent in the rounds before.
\<close>

theorem progress_never_closed:
  "Close \<notin> set (channel_ops e fileURL s rounds)
   \<and> \<not> snd (consume (channel_ops e fileURL s rounds))
   \<and> (fst (getRangeDetails e fileURL (emit (PrintDownloading fileURL) s))
          = Return (rangesSupported, contentLength, Some err)
        \<longrightarrow> fst (Download e fileURL s) = Return ([], Some err)
          \<and> new_events e fileURL s = [PrintDownloading fileURL, HEAD fileURL]
          \<and> sampler_run e fileURL s rounds = None)
   \<and> (fst (getRangeDetails e fileURL (emit (PrintDownloading fileURL) s))
          = Return (rangesSupported, contentLength, None)
        \<and> progressEnabled (dl s) \<and> fst (Download e fileURL s) = Return res
        \<longrightarrow> (\<exists>evs. after_start (new_events e fileURL s) = Some (contentLength, evs @ [CancelProgress]))
          \<and> (\<forall>before k cs taken later.
                length (new_events e fileURL s) \<le> k
                \<longrightarrow> (\<exists>st. sampler_run e fileURL s (before @ (k, cs, taken) # later)
                             = Some (channel_ops e fileURL s before, st)
                          \<and> st \<noteq> Asleep)))"
proof -
  let ?s1 = "emit (PrintDownloading fileURL) s"
  let ?s2 = "emit (HEAD fileURL) ?s1"
  have failed: "fst (Download e fileURL s) = Return ([], Some err)
      \<and> new_events e fileURL s = [PrintDownloading fileURL, HEAD fileURL]
      \<and> sampler_run e fileURL s rounds = None"
    if "fst (getRangeDetails e fileURL ?s1) = Return (rangesSupported, contentLength, Some err)"
  proof -
    have "getRangeDetails e fileURL ?s1 = (Return (rangesSupported, contentLength, Some err), ?s2)"
      using that getRangeDetails_state [of e fileURL ?s1] by (metis prod.collapse)
    then have d: "Download e fileURL s = (Return ([], Some err), ?s2)"
      by (simp add: Download_def)
    then have n: "new_events e fileURL s = [PrintDownloading fileURL, HEAD fileURL]"
      by (simp add: new_events_def)
    show ?thesis
      by (simp add: d n sampler_run_def)
  qed
  have ok: "(\<exists>evs. after_start (new_events e fileURL s) = Some (contentLength, evs @ [CancelProgress]))
      \<and> (\<forall>before k cs taken later.
            length (new_events e fileURL s) \<le> k
            \<longrightarrow> (\<exists>st. sampler_run e fileURL s (before @ (k, cs, taken) # later)
                         = Some (channel_ops e fileURL s before, st)
                      \<and> st \<noteq> Asleep))"
    if "fst (getRangeDetails e fileURL ?s1) = Return (rangesSupported, contentLength, None)
        \<and> progressEnabled (dl s) \<and> fst (Download e fileURL s) = Return res"
  proof -
    from new_events_Download_ok [of e fileURL s rangesSupported contentLength res] that
    obtain evs where n: "new_events e fileURL s
        = [PrintDownloading fileURL, HEAD fileURL, GoProgress contentLength] @ evs @ [CancelProgress]"
      by blast
    then have a: "after_start (new_events e fileURL s) = Some (contentLength, evs @ [CancelProgress])"
      by simp
    have stops: "\<exists>st. sampler_run e fileURL s (before @ (k, cs, taken) # later)
                     = Some (channel_ops e fileURL s before, st) \<and> st \<noteq> Asleep"
      if k: "length (new_events e fileURL s) \<le> k" for before k cs taken later
    proof -
      let ?f = "\<lambda>(k, cs, taken). (CancelProgress \<in> set (take k (evs @ [CancelProgress])), cs, taken)"
      from k n have "length (evs @ [CancelProgress]) \<le> k"
        by simp
      then have "take k (evs @ [CancelProgress]) = evs @ [CancelProgress]"
        by (rule take_all)
      then have "CancelProgress \<in> set (take k (evs @ [CancelProgress]))"
        by (simp del: take_append)
      then have r: "?f (k, cs, taken) = (True, cs, taken)"
        by (simp del: take_append)
      have "sampler_run e fileURL s (before @ (k, cs, taken) # later)
          = Some (progress contentLength (map ?f before @ (True, cs, taken) # map ?f later))"
        unfolding sampler_run_def a using r by simp
      moreover have "channel_ops e fileURL s before = fst (progress contentLength (map ?f before))"
        by (simp add: channel_ops_def sampler_run_def a)
      ultimately show ?thesis
        by (simp add: progress_done)
    qed
    from a stops show ?thesis by blast
  qed
  from failed ok show ?thesis
    by (simp add: consume_channel_ops Close_notin_channel_ops)
qed

text \<open>
  The theorem for a download in one stream of ten bytes, progress enabled, with one
  round of \<^verbatim>\<open>progress\<close> at its start and one after the eight events of the call.
\<close>

theorem progress_never_closed_witness:
  "Close \<notin> set (channel_ops (server 200 (ranged_headers ''10'') [None \<mapsto> ''0123456789''])
       ''http://h/f.bin'' (fresh 1 True) [(0, [[]], True), (8, [''0123456789''], True)])
   \<and> (\<exists>st. sampler_run (server 200 (ranged_headers ''10'') [None \<mapsto> ''0123456789''])
          ''http://h/f.bin'' (fresh 1 True) ([(0, [[]], True)] @ (8, [''0123456789''], True) # [])
        = Some (channel_ops (server 200 (ranged_headers ''10'') [None \<mapsto> ''0123456789''])
             ''http://h/f.bin'' (fresh 1 True) [(0, [[]], True)], st)
      \<and> st \<noteq> Asleep)"
proof -
  let ?e = "server 200 (ranged_headers ''10'') [None \<mapsto> ''0123456789'']"
  have p: "fst (getRangeDetails ?e ''http://h/f.bin''
              (emit (PrintDownloading ''http://h/f.bin'') (fresh 1 True))) = Return (True, 10, None)"
    by (simp add: getRangeDetails_def server_def ranged_headers_def Header_Get_def Atoi_def
        is_digit_def digits_value_def maxInt_def Let_def)
  have q: "progressEnabled (dl (fresh 1 True))"
    by (simp add: fresh_def)
  have r: "fst (Download ?e ''http://h/f.bin'' (fresh 1 True)) = Return (''/home/u/f.bin'', None)"
    and t: "trace (snd (Download ?e ''http://h/f.bin'' (fresh 1 True)))
      = [PrintDownloading ''http://h/f.bin'', HEAD ''http://h/f.bin'', GoProgress 10,
         Println ''processing single'', GET ''http://h/f.bin'' None,
         Println ''started writing to buffer'', PrintWritten 10, CancelProgress]"
    by (simp_all add: run_defs combine_loop.simps case_prod_unfold)
  have n: "length (new_events ?e ''http://h/f.bin'' (fresh 1 True)) \<le> 8"
    by (simp add: new_events_def t)
  from progress_never_closed [of ?e "''http://h/f.bin''" "fresh 1 True"
      "[(0, [[]], True), (8, [''0123456789''], True)]" True 10 undefined "(''/home/u/f.bin'', None)"]
    p q r n
  show ?thesis
    by blast
qed

text \<open>
  Claim C6 as it is written has the channel closed, or its reader's loop ended, when
  the download finishes, on both return paths. After a download that returns the path,
  \<^verbatim>\<open>progress\<close> has sent 0 and 100 and has returned, the reader has received both, and
  its loop has not ended; after one that returns the error of the probe, the reader
  has received nothing and its loop has not ended.
\<close>

theorem progress_channel_not_closed:
  "fst (Download (server 200 (ranged_headers ''10'') [None \<mapsto> ''0123456789''])
         ''http://h/f.bin'' (fresh 1 True)) = Return (''/home/u/f.bin'', None)
   \<and> sampler_run (server 200 (ranged_headers ''10'') [None \<mapsto> ''0123456789''])
         ''http://h/f.bin'' (fresh 1 True)
         [(0, [[]], True), (3, [''0123456789''], True), (8, [''0123456789''], True)]
       = Some ([Send (Some 0), Send (Some 100)], Returned)
   \<and> consume (channel_ops (server 200 (ranged_headers ''10'') [None \<mapsto> ''0123456789''])
         ''http://h/f.bin'' (fresh 1 True)
         [(0, [[]], True), (3, [''0123456789''], True), (8, [''0123456789''], True)])
       = ([Some 0, Some 100], False)
   \<and> fst (Download (server 200 (ranged_headers ''x'') [None \<mapsto> ''0123456789''])
         ''http://h/f.bin'' (fresh 1 True)) = Return ([], Some ErrSyntax)
   \<and> consume (channel_ops (server 200 (ranged_headers ''x'') [None \<mapsto> ''0123456789''])
         ''http://h/f.bin'' (fresh 1 True)
         [(0, [[]], True), (3, [''0123456789''], True), (8, [''0123456789''], True)])
       = ([], False)"
proof -
  let ?e = "server 200 (ranged_headers ''10'') [None \<mapsto> ''0123456789'']"
  let ?x = "server 200 (ranged_headers ''x'') [None \<mapsto> ''0123456789'']"
  let ?rounds = "[(0 :: nat, [[]], True), (3, [''0123456789''], True), (8, [''0123456789''], True)]"
  have r: "fst (Download ?e ''http://h/f.bin'' (fresh 1 True)) = Return (''/home/u/f.bin'', None)"
    and t: "trace (snd (Download ?e ''http://h/f.bin'' (fresh 1 True)))
      = [PrintDownloading ''http://h/f.bin'', HEAD ''http://h/f.bin'', GoProgress 10,
         Println ''processing single'', GET ''http://h/f.bin'' None,
         Println ''started writing to buffer'', PrintWritten 10, CancelProgress]"
    by (simp_all add: run_defs combine_loop.simps case_prod_unfold)
  have x: "fst (Download ?x ''http://h/f.bin'' (fresh 1 True)) = Return ([], Some ErrSyntax)"
    and tx: "trace (snd (Download ?x ''http://h/f.bin'' (fresh 1 True)))
      = [PrintDownloading ''http://h/f.bin'', HEAD ''http://h/f.bin'']"
    by (simp_all add: run_defs case_prod_unfold)
  have v: "progressSample [[]] 10 = Some 0" "progressSample [''0123456789''] 10 = Some 100"
    by (simp_all add: f32_defs)
  have f: "trace (fresh 1 True) = []"
    by (simp add: fresh_def)
  have s: "sampler_run ?e ''http://h/f.bin'' (fresh 1 True) ?rounds
      = Some ([Send (Some 0), Send (Some 100)], Returned)"
    by (simp add: sampler_run_def new_events_def t f v)
  have sx: "sampler_run ?x ''http://h/f.bin'' (fresh 1 True) ?rounds = None"
    by (simp add: sampler_run_def new_events_def tx f)
  show ?thesis
    by (simp add: r x s sx channel_ops_def)
qed
section \<open>The combined file\<close>



section \<open>The progress sample\<close>

text \<open>
  Claim C5. Let the total length be positive and the buffers hold fewer than \<open>2 ^ 50\<close>
  bytes together. Then every buffer has its own percentage
  \<^verbatim>\<open>int((float32(chunk.Len()) / float32(totalLen)) * 100)\<close>, and the sample sent is the sum of
  these percentages, or 100 when the sum is more: an integer from 0 to 100. When one buffer
  holds as many bytes as the total length and the others are empty, the sample is 100.
\<close>

theorem progressSample_percent:
  assumes "0 < totalLen" and "totalLen \<le> maxInt" and "length (concat cs) < 2 ^ 50"
  shows "(\<exists>ps v. map (\<lambda>c. chunk_percent (length c) totalLen) cs = map Some ps
            \<and> progressSample cs totalLen = Some v
            \<and> v = min 100 (sum_list ps) \<and> 0 \<le> v \<and> v \<le> 100)
         \<and> (\<forall>c i j. length c = nat totalLen
               \<longrightarrow> progressSample (replicate i [] @ c # replicate j []) totalLen = Some 100)"
proof -
  have "0 + 1600 * int (length (concat cs)) \<le> maxInt"
    using assms(3) by (simp add: maxInt_def)
  then have "\<exists>ps. map (\<lambda>c. chunk_percent (length c) totalLen) cs = map Some ps
      \<and> (\<forall>p \<in> set ps. 0 \<le> p)
      \<and> sum_percent totalLen cs 0 = Some (0 + sum_list ps)"
    using assms(3) by (intro sum_percent_bounds [OF assms(1,2)]) simp_all
  then obtain ps where ps: "map (\<lambda>c. chunk_percent (length c) totalLen) cs = map Some ps"
      and p0: "\<forall>p \<in> set ps. 0 \<le> p"
      and s: "sum_percent totalLen cs 0 = Some (sum_list ps)"
    by auto
  have "0 \<le> sum_list ps"
    using p0 by (intro sum_list_nonneg) simp
  then have "progressSample cs totalLen = Some (min 100 (sum_list ps))
      \<and> 0 \<le> min 100 (sum_list ps) \<and> min 100 (sum_list ps) \<le> 100"
    by (simp add: progressSample_def s min_def)
  then have a: "\<exists>ps v. map (\<lambda>c. chunk_percent (length c) totalLen) cs = map Some ps
            \<and> progressSample cs totalLen = Some v
            \<and> v = min 100 (sum_list ps) \<and> 0 \<le> v \<and> v \<le> 100"
    using ps by blast
  show ?thesis
    using a progressSample_one_full [OF assms(1,2)] by blast
qed

text \<open>Two bytes of three in one buffer and one in the other; all three in the second of three.\<close>

theorem progressSample_percent_witness:
  "(0 :: int) < 3 \<and> 3 \<le> maxInt \<and> length (concat [''ab'', ''c'']) < 2 ^ 50
   \<and> (\<exists>v. progressSample [''ab'', ''c''] 3 = Some v \<and> 0 \<le> v \<and> v \<le> 100)
   \<and> progressSample ['''', ''abc'', ''''] 3 = Some 100"
  using progressSample_percent [of 3 "[''ab'', ''c'']", THEN conjunct1]
    progressSample_percent [of 3 "[''ab'', ''c'']", THEN conjunct2, rule_format, of "''abc''" 1 1]
  by (auto simp: maxInt_def)

text \<open>
  The sample is not the percentage of the bytes of all buffers together, and buffers
  that are full to the total length need not give 100: each buffer's percentage loses
  its fraction before the sum. Two buffers with two and one of three bytes give
  \<open>66 + 33 = 99\<close>.
\<close>

theorem progressSample_not_spec:
  "sum_list (map length [''ab'', ''c'']) = 3
   \<and> ProgressSample_spec [''ab'', ''c''] 3 = 100
   \<and> progressSample [''ab'', ''c''] 3 = Some 99"
  by (simp add: f32_defs ProgressSample_spec_def)

text \<open>The five full buffers of a resource of 1822199 bytes give \<open>20 + 20 + 20 + 20 + 19\<close>.\<close>

lemma progressSample_1822199:
  "progressSample [replicate 364440 a, replicate 364440 b, replicate 364440 c,
                   replicate 364440 d, replicate 364439 e] 1822199 = Some 99"
  by (simp add: f32_defs)

end
